theory Spec2Isabelle
  imports Main
begin

section \<open>The board of ConnectFour.cpp\<close>

text \<open>
  The enums \<open>Board::SpaceState\<close> and \<open>Board::MoveType\<close>. Both C++ enums have
  enumerators called \<open>Player1\<close> and \<open>Player2\<close>; the ones of \<open>MoveType\<close> carry the
  prefix \<open>Move\<close> here, since HOL constructors share one name space.
\<close>

datatype SpaceState = Empty | Player1 | Player2

datatype MoveType = MovePlayer1 | MovePlayer2

text \<open>
  The three \<open>std::exception\<close> messages thrown by the board, one constructor each:
  "Row out of range", "Column out of range", "Cannot make move".
\<close>

datatype error = RowOutOfRange | ColumnOutOfRange | CannotMakeMove

text \<open>
  \<open>struct LastMove_t { unsigned int x; unsigned int y; bool isInitialized; }\<close>. The
  fields \<open>x\<close> and \<open>y\<close> are called \<open>lm_x\<close> and \<open>lm_y\<close>, so that \<open>x\<close> and \<open>y\<close>
  stay usable as variables. Indices are \<open>unsigned int\<close> in the source; no arithmetic on
  them can wrap (they are only compared with \<open>Width\<close> and \<open>Height\<close>), so they are
  natural numbers here.
\<close>

record LastMove_t =
  lm_x :: nat
  lm_y :: nat
  isInitialized :: bool

text \<open>
  \<open>class Board\<close>: the public member \<open>LastMove\<close> and the private
  \<open>std::vector<std::vector<SpaceState>> board\<close>, indexed \<open>board[Row][Column]\<close>.
\<close>

record Board =
  LastMove :: LastMove_t
  board :: "SpaceState list list"

definition Width :: nat where
  "Width = 7"

definition Height :: nat where
  "Height = 6"

text \<open>The constructor \<open>Board()\<close>: no last move, \<open>Height\<close> rows of \<open>Width\<close> empty cells.\<close>

definition Board_new :: Board where
  "Board_new =
     \<lparr>LastMove = \<lparr>lm_x = 0, lm_y = 0, isInitialized = False\<rparr>,
      board = replicate Height (replicate Width Empty)\<rparr>"

text \<open>
  \<open>void operator= (const Board& original) { board = original.board; }\<close>: the
  destination object \<open>dst\<close> receives the grid of \<open>original\<close> and nothing else.
\<close>

definition assign :: "Board \<Rightarrow> Board \<Rightarrow> Board" where
  "assign dst original = dst\<lparr>board := board original\<rparr>"

definition GetSpace :: "Board \<Rightarrow> nat \<Rightarrow> nat \<Rightarrow> error + SpaceState" where
  "GetSpace b Row Column =
     (if Row \<ge> Height then Inl RowOutOfRange
      else if Column \<ge> Width then Inl ColumnOutOfRange
      else Inr (board b ! Row ! Column))"

text \<open>
  The loop of \<open>GetColumnHeight\<close>,
  \<open>for (int i = Height - 1; i >= 0; --i) if (board[i][Column] == Empty) return i;\<close>
  followed by \<open>return Height\<close>. The third argument is \<open>i + 1\<close>, so the loop starts at
  \<open>Height\<close> and \<open>0\<close> is the exit \<open>i < 0\<close>.
\<close>

fun scan_column :: "SpaceState list list \<Rightarrow> nat \<Rightarrow> nat \<Rightarrow> nat" where
  "scan_column g Column 0 = Height"
| "scan_column g Column (Suc i) =
     (if g ! i ! Column = Empty then i else scan_column g Column i)"

definition GetColumnHeight :: "Board \<Rightarrow> nat \<Rightarrow> error + nat" where
  "GetColumnHeight b Column =
     (if Column \<ge> Width then Inl ColumnOutOfRange
      else Inr (scan_column (board b) Column Height))"

definition CanMakeMove :: "Board \<Rightarrow> nat \<Rightarrow> error + bool" where
  "CanMakeMove b Column =
     (case GetColumnHeight b Column of
        Inl e \<Rightarrow> Inl e
      | Inr h \<Rightarrow> Inr (h < Height))"

fun ConvertMoveToSpaceState :: "MoveType \<Rightarrow> SpaceState" where
  "ConvertMoveToSpaceState MovePlayer1 = Player1"
| "ConvertMoveToSpaceState MovePlayer2 = Player2"

text \<open>
  The mutating members return the outcome (\<open>Inl\<close> the exception thrown, \<open>Inr ()\<close> a
  normal return) together with the object as it is afterwards.
\<close>

definition SetSpace :: "nat \<Rightarrow> nat \<Rightarrow> SpaceState \<Rightarrow> Board \<Rightarrow> (error + unit) \<times> Board" where
  "SetSpace Row Column NewState b =
     (if Row \<ge> Height then (Inl RowOutOfRange, b)
      else if Column \<ge> Width then (Inl ColumnOutOfRange, b)
      else (Inr (),
            b\<lparr>LastMove := \<lparr>lm_x = Column, lm_y = Row, isInitialized = True\<rparr>,
              board := (board b)[Row := (board b ! Row)[Column := NewState]]\<rparr>))"

definition MakeMove :: "MoveType \<Rightarrow> nat \<Rightarrow> Board \<Rightarrow> (error + unit) \<times> Board" where
  "MakeMove Move Column b =
     (case CanMakeMove b Column of
        Inl e \<Rightarrow> (Inl e, b)
      | Inr False \<Rightarrow> (Inl CannotMakeMove, b)
      | Inr True \<Rightarrow>
          (case GetColumnHeight b Column of
             Inl e \<Rightarrow> (Inl e, b)
           | Inr CurrentHeight \<Rightarrow>
               SetSpace CurrentHeight Column (ConvertMoveToSpaceState Move) b))"

text \<open>
  \<open>CheckWin\<close>: four loop nests, each returning \<open>true\<close> at its first hit. The bounds
  \<open>c <= Width - 4\<close> and \<open>r <= Height - 4\<close> are the ranges \<open>[0..<Suc (Width - 4)]\<close> and
  \<open>[0..<Suc (Height - 4)]\<close>; the last nest runs \<open>r\<close> from \<open>3\<close> to \<open>Height - 1\<close>.
\<close>

definition win_horizontal :: "SpaceState list list \<Rightarrow> SpaceState \<Rightarrow> bool" where
  "win_horizontal g player =
     (\<exists>r \<in> set [0..<Height]. \<exists>c \<in> set [0..<Suc (Width - 4)].
        g ! r ! c = player \<and> g ! r ! (c + 1) = player \<and>
        g ! r ! (c + 2) = player \<and> g ! r ! (c + 3) = player)"

definition win_vertical :: "SpaceState list list \<Rightarrow> SpaceState \<Rightarrow> bool" where
  "win_vertical g player =
     (\<exists>c \<in> set [0..<Width]. \<exists>r \<in> set [0..<Suc (Height - 4)].
        g ! r ! c = player \<and> g ! (r + 1) ! c = player \<and>
        g ! (r + 2) ! c = player \<and> g ! (r + 3) ! c = player)"

definition win_diagonal_down :: "SpaceState list list \<Rightarrow> SpaceState \<Rightarrow> bool" where
  "win_diagonal_down g player =
     (\<exists>r \<in> set [0..<Suc (Height - 4)]. \<exists>c \<in> set [0..<Suc (Width - 4)].
        g ! r ! c = player \<and> g ! (r + 1) ! (c + 1) = player \<and>
        g ! (r + 2) ! (c + 2) = player \<and> g ! (r + 3) ! (c + 3) = player)"

definition win_diagonal_up :: "SpaceState list list \<Rightarrow> SpaceState \<Rightarrow> bool" where
  "win_diagonal_up g player =
     (\<exists>r \<in> set [3..<Height]. \<exists>c \<in> set [0..<Suc (Width - 4)].
        g ! r ! c = player \<and> g ! (r - 1) ! (c + 1) = player \<and>
        g ! (r - 2) ! (c + 2) = player \<and> g ! (r - 3) ! (c + 3) = player)"

definition CheckWin :: "Board \<Rightarrow> SpaceState \<Rightarrow> bool" where
  "CheckWin b player =
     (win_horizontal (board b) player \<or> win_vertical (board b) player \<or>
      win_diagonal_down (board b) player \<or> win_diagonal_up (board b) player)"

text \<open>Every board the program builds has \<open>Height\<close> rows of \<open>Width\<close> cells.\<close>

definition wf_board :: "Board \<Rightarrow> bool" where
  "wf_board b =
     (length (board b) = Height \<and> (\<forall>row \<in> set (board b). length row = Width))"

text \<open>
  A sequence of \<open>MakeMove\<close> calls on one object, stopping at the first exception, and
  the boards that successful \<open>MakeMove\<close> calls produce from a freshly constructed one.
\<close>

fun MakeMoves :: "(MoveType \<times> nat) list \<Rightarrow> Board \<Rightarrow> (error + unit) \<times> Board" where
  "MakeMoves [] b = (Inr (), b)"
| "MakeMoves ((Move, Column) # ms) b =
     (case MakeMove Move Column b of
        (Inl e, b') \<Rightarrow> (Inl e, b')
      | (Inr u, b') \<Rightarrow> MakeMoves ms b')"

inductive reachable :: "Board \<Rightarrow> bool" where
  start: "reachable Board_new"
| move: "reachable b \<Longrightarrow> MakeMove Move Column b = (Inr (), b') \<Longrightarrow> reachable b'"

section \<open>The game loop of main\<close>

text \<open>
  What one pass through the \<open>try\<close> block of \<open>main\<close> ends with: it falls through to
  the next pass (\<open>Continue\<close>), throws \<open>GameOverException\<close> after printing one of
  "Player 1 wins!", "Player 2 wins!", "It's a draw!", or lets a \<open>std::exception\<close> of
  the board escape. Printing the board is not modelled.
\<close>

datatype game_end = Player1Wins | Player2Wins | Draw

datatype outcome = Continue | GameOver game_end | Exception error

text \<open>
  The input loop (\<open>while (true)\<close> around \<open>GetRequestedColumn\<close>): the list holds what
  successive calls of \<open>GetRequestedColumn\<close> return. A missing value or a throwing
  \<open>MakeMove\<close> asks again; \<open>None\<close> is the loop still waiting when the list is used up.
\<close>

fun human_move :: "nat option list \<Rightarrow> Board \<Rightarrow> Board option" where
  "human_move [] b = None"
| "human_move (None # inputs) b = human_move inputs b"
| "human_move (Some Column # inputs) b =
     (case MakeMove MovePlayer1 Column b of
        (Inr u, b') \<Rightarrow> Some b'
      | (Inl e, b') \<Rightarrow> human_move inputs b')"

text \<open>
  The draw test: \<open>isDraw\<close> stays true unless some column \<open>c\<close> of \<open>0 .. Width - 1\<close>
  can take a move.
\<close>

fun draw_check :: "Board \<Rightarrow> nat list \<Rightarrow> error + bool" where
  "draw_check b [] = Inr True"
| "draw_check b (c # cs) =
     (case CanMakeMove b c of
        Inl e \<Rightarrow> Inl e
      | Inr True \<Rightarrow> Inr False
      | Inr False \<Rightarrow> draw_check b cs)"

text \<open>
  The loop "look for winning play" over the columns \<open>i\<close>. Each pass constructs
  \<open>boardWin\<close>, assigns \<open>b\<close> to it, and tries Player2's token there; at the first win
  the move is made on \<open>b\<close> itself and \<open>GameOverException\<close> is thrown. \<open>None\<close> means the
  loop ran to its end.
\<close>

fun win_now :: "Board \<Rightarrow> nat list \<Rightarrow> (outcome \<times> Board) option" where
  "win_now b [] = None"
| "win_now b (i # cols) =
     (let boardWin = assign Board_new b in
      case CanMakeMove boardWin i of
        Inl e \<Rightarrow> Some (Exception e, b)
      | Inr False \<Rightarrow> win_now b cols
      | Inr True \<Rightarrow>
          (case MakeMove MovePlayer2 i boardWin of
             (Inl e, boardWin') \<Rightarrow> Some (Exception e, b)
           | (Inr u, boardWin') \<Rightarrow>
               if CheckWin boardWin' Player2 then
                 (case MakeMove MovePlayer2 i b of
                    (Inl e, b') \<Rightarrow> Some (Exception e, b')
                  | (Inr u', b') \<Rightarrow> Some (GameOver Player2Wins, b'))
               else win_now b cols))"

text \<open>
  The loop "look for a blocking play". The result is what was thrown (if anything),
  the flag \<open>bFoundBlock\<close> and the board \<open>b\<close> after the loop. At the first column where
  Player1's token would win on the copy, Player2's token is put on \<open>b\<close> and the loop is
  left (\<open>break\<close>, or the throw when that move wins).
\<close>

fun block_play :: "Board \<Rightarrow> nat list \<Rightarrow> outcome option \<times> bool \<times> Board" where
  "block_play b [] = (None, False, b)"
| "block_play b (i # cols) =
     (let boardWin = assign Board_new b in
      case CanMakeMove boardWin i of
        Inl e \<Rightarrow> (Some (Exception e), False, b)
      | Inr False \<Rightarrow> block_play b cols
      | Inr True \<Rightarrow>
          (case MakeMove MovePlayer1 i boardWin of
             (Inl e, boardWin') \<Rightarrow> (Some (Exception e), False, b)
           | (Inr u, boardWin') \<Rightarrow>
               if CheckWin boardWin' Player1 then
                 (case MakeMove MovePlayer2 i b of
                    (Inl e, b') \<Rightarrow> (Some (Exception e), False, b')
                  | (Inr u', b') \<Rightarrow>
                      if CheckWin b' Player2 then (Some (GameOver Player2Wins), True, b')
                      else (None, True, b'))
               else block_play b cols))"

text \<open>
  The fallback \<open>while (!b.CanMakeMove(autoMove - 1)) { autoMove++; if (autoMove > Width)
  autoMove = 1; }\<close>, where \<open>autoMove\<close> is 1-indexed. It runs forever on a board without
  a free column; \<open>None\<close> is that case.
\<close>

partial_function (option) probe_column :: "Board \<Rightarrow> nat \<Rightarrow> (error + nat) option" where
  "probe_column b autoMove =
     (case CanMakeMove b (autoMove - 1) of
        Inl e \<Rightarrow> Some (Inl e)
      | Inr can \<Rightarrow>
          if can then Some (Inr autoMove)
          else probe_column b (if autoMove + 1 > Width then 1 else autoMove + 1))"

declare probe_column.simps [code]

text \<open>The test after Player2's move: "Player 2 wins!" and the throw, or the next pass.\<close>

definition final_check :: "Board \<Rightarrow> outcome \<times> Board" where
  "final_check b =
     (if CheckWin b (ConvertMoveToSpaceState MovePlayer2) then (GameOver Player2Wins, b)
      else (Continue, b))"

text \<open>
  The branch of the automated player; \<open>rnd\<close> is the value of \<open>rand()\<close>, so that
  \<open>autoMove = 1 + (rand() % Width)\<close>.
\<close>

definition player2_turn :: "nat \<Rightarrow> Board \<Rightarrow> (outcome \<times> Board) option" where
  "player2_turn rnd b =
     (let autoMove = 1 + rnd mod Width in
      case win_now b [0..<Width] of
        Some thrown \<Rightarrow> Some thrown
      | None \<Rightarrow>
          (case block_play b [0..<Width] of
             (Some thrown, bFoundBlock, b') \<Rightarrow> Some (thrown, b')
           | (None, True, b') \<Rightarrow> Some (final_check b')
           | (None, False, b') \<Rightarrow>
               (case probe_column b' autoMove of
                  None \<Rightarrow> None
                | Some (Inl e) \<Rightarrow> Some (Exception e, b')
                | Some (Inr autoMove') \<Rightarrow>
                    (case MakeMove MovePlayer2 (autoMove' - 1) b' of
                       (Inl e, b'') \<Rightarrow> Some (Exception e, b'')
                     | (Inr u, b'') \<Rightarrow> Some (final_check b'')))))"

text \<open>
  The \<open>try\<close> block after the input loop: \<open>currentPlayer\<close> is Player1 at this point in
  every pass, so the first test is Player1's win; then the draw test; then the
  automated player's branch.
\<close>

definition after_move :: "nat \<Rightarrow> Board \<Rightarrow> (outcome \<times> Board) option" where
  "after_move rnd b =
     (if CheckWin b (ConvertMoveToSpaceState MovePlayer1) then Some (GameOver Player1Wins, b)
      else
        (case draw_check b [0..<Width] of
           Inl e \<Rightarrow> Some (Exception e, b)
         | Inr True \<Rightarrow> Some (GameOver Draw, b)
         | Inr False \<Rightarrow> player2_turn rnd b))"

definition try_body :: "nat option list \<Rightarrow> nat \<Rightarrow> Board \<Rightarrow> (outcome \<times> Board) option" where
  "try_body inputs rnd b =
     (case human_move inputs b of
        None \<Rightarrow> None
      | Some b' \<Rightarrow> after_move rnd b')"

text \<open>
  \<open>catch (GameOverException)\<close>. The condition of its \<open>if\<close>,
  \<open>b.CheckWin(ConvertMoveToSpaceState(MoveType::Player2))\<close>, is \<open>alert_condition\<close>.
  The handler first assigns a new board to \<open>b\<close> and then evaluates that condition
  on \<open>b\<close>; when it holds, the four alert characters (the beep) are printed. The
  result is that decision and the board afterwards. (The character read by
  \<open>std::cin >> temp\<close> is not modelled.)
\<close>

definition alert_condition :: "Board \<Rightarrow> bool" where
  "alert_condition b = CheckWin b (ConvertMoveToSpaceState MovePlayer2)"

definition game_over_handler :: "Board \<Rightarrow> bool \<times> Board" where
  "game_over_handler b =
     (let newBoard = Board_new;
          b' = assign b newBoard
      in (alert_condition b', b'))"

text \<open>One pass of the outer \<open>while (true)\<close>: whether it beeped, and the board.\<close>

definition loop_pass :: "nat option list \<Rightarrow> nat \<Rightarrow> Board \<Rightarrow> (bool \<times> Board) option" where
  "loop_pass inputs rnd b =
     (case try_body inputs rnd b of
        None \<Rightarrow> None
      | Some (GameOver m, b') \<Rightarrow> Some (game_over_handler b')
      | Some (Continue, b') \<Rightarrow> Some (False, b')
      | Some (Exception e, b') \<Rightarrow> Some (False, b'))"

section \<open>Boards with their storage on a heap\<close>

text \<open>
  \<open>main\<close> holds several \<open>Board\<close> objects at once (\<open>b\<close>, \<open>boardWin\<close>,
  \<open>newBoard\<close>). The member \<open>board\<close> is a vector of \<open>Height\<close> row vectors, and
  each row vector keeps its cells in a buffer of its own. Here the heap maps the
  address of a buffer to the cells it holds, and an object is its \<open>LastMove\<close>
  together with the addresses of its row buffers, in row order. \<open>next_free\<close> is the
  first address never handed out.
\<close>

type_synonym addr = nat

record heap =
  row_store :: "addr \<Rightarrow> SpaceState list"
  next_free :: addr

record BoardObj =
  obj_LastMove :: LastMove_t
  obj_rows :: "addr list"

text \<open>The value of an object: what its members hold in a given heap.\<close>

definition load :: "heap \<Rightarrow> BoardObj \<Rightarrow> Board" where
  "load h obj = \<lparr>LastMove = obj_LastMove obj, board = map (row_store h) (obj_rows obj)\<rparr>"

text \<open>
  The constructor \<open>Board()\<close> on the heap: \<open>Height\<close> new buffers, each filled with
  \<open>Width\<close> empty cells.
\<close>

definition fill_row :: "addr \<Rightarrow> (addr \<Rightarrow> SpaceState list) \<Rightarrow> addr \<Rightarrow> SpaceState list" where
  "fill_row a store = store(a := replicate Width Empty)"

definition h_Board_new :: "heap \<Rightarrow> BoardObj \<times> heap" where
  "h_Board_new h =
     (let rows = [next_free h..<next_free h + Height]
      in (\<lparr>obj_LastMove = \<lparr>lm_x = 0, lm_y = 0, isInitialized = False\<rparr>, obj_rows = rows\<rparr>,
          h\<lparr>row_store := fold fill_row rows (row_store h),
            next_free := next_free h + Height\<rparr>))"

text \<open>
  \<open>board = original.board\<close> on the heap. The assignment of a vector to a vector of
  the same size assigns element by element; here an element is a row vector, and its
  assignment writes the cells of the source row into the buffer of the destination
  row. The destination keeps its own buffers. (Every board has \<open>Height\<close> rows of
  \<open>Width\<close> cells, so no buffer is ever resized.)
\<close>

definition copy_row ::
    "addr \<times> addr \<Rightarrow> (addr \<Rightarrow> SpaceState list) \<Rightarrow> addr \<Rightarrow> SpaceState list" where
  "copy_row p store = store(fst p := store (snd p))"

definition h_assign :: "BoardObj \<Rightarrow> BoardObj \<Rightarrow> heap \<Rightarrow> heap" where
  "h_assign dst original h =
     h\<lparr>row_store := fold copy_row (zip (obj_rows dst) (obj_rows original)) (row_store h)\<rparr>"

text \<open>
  \<open>SetSpace\<close> and \<open>MakeMove\<close> on the heap: \<open>board[Row][Column] = NewState\<close>
  writes one cell of the buffer of row \<open>Row\<close> of the object. The queries read the
  object's value.
\<close>

definition h_SetSpace ::
    "nat \<Rightarrow> nat \<Rightarrow> SpaceState \<Rightarrow> BoardObj \<Rightarrow> heap \<Rightarrow> (error + unit) \<times> BoardObj \<times> heap" where
  "h_SetSpace Row Column NewState obj h =
     (if Row \<ge> Height then (Inl RowOutOfRange, obj, h)
      else if Column \<ge> Width then (Inl ColumnOutOfRange, obj, h)
      else (Inr (),
            obj\<lparr>obj_LastMove := \<lparr>lm_x = Column, lm_y = Row, isInitialized = True\<rparr>\<rparr>,
            h\<lparr>row_store := (row_store h)
                (obj_rows obj ! Row := (row_store h (obj_rows obj ! Row))[Column := NewState])\<rparr>))"

definition h_MakeMove ::
    "MoveType \<Rightarrow> nat \<Rightarrow> BoardObj \<Rightarrow> heap \<Rightarrow> (error + unit) \<times> BoardObj \<times> heap" where
  "h_MakeMove Move Column obj h =
     (case CanMakeMove (load h obj) Column of
        Inl e \<Rightarrow> (Inl e, obj, h)
      | Inr False \<Rightarrow> (Inl CannotMakeMove, obj, h)
      | Inr True \<Rightarrow>
          (case GetColumnHeight (load h obj) Column of
             Inl e \<Rightarrow> (Inl e, obj, h)
           | Inr CurrentHeight \<Rightarrow>
               h_SetSpace CurrentHeight Column (ConvertMoveToSpaceState Move) obj h))"

text \<open>
  A sequence of \<open>MakeMove\<close> calls on one object. A call that throws leaves the object
  as it is and the sequence goes on (the caller catches the exception, as the input
  loop of \<open>main\<close> does).
\<close>

fun h_MakeMoves :: "(MoveType \<times> nat) list \<Rightarrow> BoardObj \<Rightarrow> heap \<Rightarrow> BoardObj \<times> heap" where
  "h_MakeMoves [] obj h = (obj, h)"
| "h_MakeMoves ((Move, Column) # ms) obj h =
     (case h_MakeMove Move Column obj h of
        (outcome, obj', h') \<Rightarrow> h_MakeMoves ms obj' h')"

text \<open>
  An object owns its buffers when it has \<open>Height\<close> of them, all different and all
  handed out already; two objects are separate when they share no buffer.
\<close>

definition owns_rows :: "heap \<Rightarrow> BoardObj \<Rightarrow> bool" where
  "owns_rows h obj =
     (length (obj_rows obj) = Height \<and> distinct (obj_rows obj) \<and>
      list_all (\<lambda>a. a < next_free h) (obj_rows obj))"

definition separate :: "BoardObj \<Rightarrow> BoardObj \<Rightarrow> bool" where
  "separate obj obj' = list_all (\<lambda>a. a \<notin> set (obj_rows obj')) (obj_rows obj)"

section \<open>Properties named by the specification\<close>

text \<open>The column still has an empty cell, as seen through \<open>GetSpace\<close>.\<close>

definition column_has_empty :: "Board \<Rightarrow> nat \<Rightarrow> bool" where
  "column_has_empty b Column = (\<exists>r \<in> set [0..<Height]. GetSpace b r Column = Inr Empty)"

text \<open>The number of occupied cells of a column.\<close>

definition occupied_cells :: "Board \<Rightarrow> nat \<Rightarrow> nat" where
  "occupied_cells b Column =
     length (filter (\<lambda>r. board b ! r ! Column \<noteq> Empty) [0..<Height])"

text \<open>
  The gravity invariant in the specification's words: no empty cell at a smaller row
  index than an occupied one, so the occupied cells of a column are a run that starts
  at row \<open>0\<close>.
\<close>

definition gravity_from_row0 :: "Board \<Rightarrow> bool" where
  "gravity_from_row0 b =
     (\<forall>c \<in> set [0..<Width]. \<forall>r \<in> set [0..<Height].
        board b ! r ! c \<noteq> Empty \<longrightarrow> (\<forall>r' \<in> set [0..<r]. board b ! r' ! c \<noteq> Empty))"

text \<open>
  What the boards of the program satisfy instead: no empty cell at a larger row index
  than an occupied one, so the occupied cells of a column are a run that ends at row
  \<open>Height - 1\<close>.
\<close>

definition gravity_to_last_row :: "Board \<Rightarrow> bool" where
  "gravity_to_last_row b =
     (\<forall>c \<in> set [0..<Width]. \<forall>r \<in> set [0..<Height].
        board b ! r ! c \<noteq> Empty \<longrightarrow> (\<forall>r' \<in> set [Suc r..<Height]. board b ! r' ! c \<noteq> Empty))"

text \<open>
  Column \<open>Column\<close> can take a move, and with the token of \<open>Move\<close> placed there
  \<open>CheckWin\<close> holds for that token.
\<close>

definition wins_at :: "Board \<Rightarrow> MoveType \<Rightarrow> nat \<Rightarrow> bool" where
  "wins_at b Move Column =
     (CanMakeMove b Column = Inr True \<and>
      CheckWin (snd (MakeMove Move Column b)) (ConvertMoveToSpaceState Move))"

text \<open>
  Four in a row in the specification's words: from some cell of the board, four cells
  in a row along one of the four directions (horizontal, vertical, the two diagonals,
  as row and column steps) are all on the board and all hold the player's token.
\<close>

definition cell_at :: "Board \<Rightarrow> int \<Rightarrow> int \<Rightarrow> SpaceState option" where
  "cell_at b r c =
     (if 0 \<le> r \<and> r < int Height \<and> 0 \<le> c \<and> c < int Width
      then Some (board b ! nat r ! nat c) else None)"

definition directions :: "(int \<times> int) list" where
  "directions = [(0, 1), (1, 0), (1, 1), (- 1, 1)]"

definition four_aligned :: "Board \<Rightarrow> SpaceState \<Rightarrow> bool" where
  "four_aligned b player =
     (\<exists>r \<in> set [0..<Height]. \<exists>c \<in> set [0..<Width]. \<exists>d \<in> set directions.
        \<forall>i \<in> set [0..<4].
          cell_at b (int r + int i * fst d) (int c + int i * snd d) = Some player)"

text \<open>
  The lines of the board as lists of (row, column) cells: the rows, the columns, the
  diagonals (constant row minus column) and the antidiagonals (constant row plus
  column); the number of cells of a line that hold a token; and "no line holds more
  than three".
\<close>

definition all_cells :: "(nat \<times> nat) list" where
  "all_cells = List.product [0..<Height] [0..<Width]"

definition board_lines :: "(nat \<times> nat) list list" where
  "board_lines =
     map (\<lambda>r. filter (\<lambda>p. fst p = r) all_cells) [0..<Height] @
     map (\<lambda>c. filter (\<lambda>p. snd p = c) all_cells) [0..<Width] @
     map (\<lambda>d. filter (\<lambda>p. fst p + d = snd p + (Height - 1)) all_cells) [0..<Height + Width - 1] @
     map (\<lambda>s. filter (\<lambda>p. fst p + snd p = s) all_cells) [0..<Height + Width - 1]"

definition tokens_in_line :: "Board \<Rightarrow> SpaceState \<Rightarrow> (nat \<times> nat) list \<Rightarrow> nat" where
  "tokens_in_line b player line =
     length (filter (\<lambda>p. board b ! fst p ! snd p = player) line)"

definition at_most_three_in_any_line :: "Board \<Rightarrow> SpaceState \<Rightarrow> bool" where
  "at_most_three_in_any_line b player =
     (\<forall>line \<in> set board_lines. tokens_in_line b player line \<le> 3)"

section \<open>Example boards\<close>

definition example_first_move :: Board where
  "example_first_move = snd (MakeMove MovePlayer1 0 Board_new)"

text \<open>
  A position of a real game: Player1 has played columns 3, 2 and 4, the automated
  player has answered 6, 6 (fallback) and 1 (block); Player1 then completes the row at
  column 5.
\<close>

definition example_before_win :: Board where
  "example_before_win =
     snd (MakeMoves [(MovePlayer1, 3), (MovePlayer2, 6), (MovePlayer1, 2), (MovePlayer2, 6),
                     (MovePlayer1, 4), (MovePlayer2, 1)] Board_new)"

definition example_player1_won :: Board where
  "example_player1_won = snd (MakeMove MovePlayer1 5 example_before_win)"

text \<open>Player2 has three tokens in column 3; Player1 has three in column 0.\<close>

definition example_win_now :: Board where
  "example_win_now =
     snd (MakeMoves [(MovePlayer1, 0), (MovePlayer2, 3), (MovePlayer1, 0), (MovePlayer2, 3),
                     (MovePlayer1, 0), (MovePlayer2, 3), (MovePlayer1, 1)] Board_new)"

text \<open>Player1 has three tokens in column 2; Player2 has one each in columns 0 and 1.\<close>

definition example_block :: Board where
  "example_block =
     snd (MakeMoves [(MovePlayer1, 2), (MovePlayer2, 0), (MovePlayer1, 2), (MovePlayer2, 1),
                     (MovePlayer1, 2)] Board_new)"

text \<open>
  Two objects on a heap: \<open>example_original\<close> is constructed first and takes one
  move in column 3; \<open>example_copy\<close> is constructed after it. \<open>example_moves\<close> are
  made on the copy; the last of them throws.
\<close>

definition empty_heap :: heap where
  "empty_heap = \<lparr>row_store = (\<lambda>a. []), next_free = 0\<rparr>"

definition example_original :: BoardObj where
  "example_original =
     fst (snd (h_MakeMove MovePlayer1 3 (fst (h_Board_new empty_heap)) (snd (h_Board_new empty_heap))))"

definition example_copy :: BoardObj where
  "example_copy =
     fst (h_Board_new (snd (snd (h_MakeMove MovePlayer1 3 (fst (h_Board_new empty_heap))
       (snd (h_Board_new empty_heap))))))"

definition example_heap :: heap where
  "example_heap =
     snd (h_Board_new (snd (snd (h_MakeMove MovePlayer1 3 (fst (h_Board_new empty_heap))
       (snd (h_Board_new empty_heap))))))"

definition example_moves :: "(MoveType \<times> nat) list" where
  "example_moves = [(MovePlayer2, 3), (MovePlayer1, 3), (MovePlayer2, 9)]"

section \<open>Basic facts about the board operations\<close>

lemma scan_column_lt_iff:
  "n \<le> Height \<Longrightarrow> scan_column g c n < Height \<longleftrightarrow> (\<exists>r < n. g ! r ! c = Empty)"
proof (induction n)
  case 0
  then show ?case by simp
next
  case (Suc n)
  then show ?case by (auto simp: less_Suc_eq)
qed

lemma scan_column_empty:
  "scan_column g c n < Height \<Longrightarrow> n \<le> Height \<Longrightarrow> g ! scan_column g c n ! c = Empty"
  by (induction n) (auto split: if_splits)

lemma scan_column_above:
  "scan_column g c n < r \<Longrightarrow> r < n \<Longrightarrow> n \<le> Height \<Longrightarrow> g ! r ! c \<noteq> Empty"
proof (induction n)
  case 0
  then show ?case by simp
next
  case (Suc n)
  then show ?case by (auto split: if_splits simp: less_Suc_eq)
qed

lemma ConvertMoveToSpaceState_not_Empty: "ConvertMoveToSpaceState Move \<noteq> Empty"
  by (cases Move) simp_all

lemma MakeMove_success:
  assumes "MakeMove Move Column b = (Inr (), b')"
  shows "Column < Width"
    and "scan_column (board b) Column Height < Height"
    and "board b' = (board b)[scan_column (board b) Column Height :=
           (board b ! scan_column (board b) Column Height)[Column := ConvertMoveToSpaceState Move]]"
    and "LastMove b' = \<lparr>lm_x = Column, lm_y = scan_column (board b) Column Height, isInitialized = True\<rparr>"
  using assms
  by (auto simp: MakeMove_def CanMakeMove_def GetColumnHeight_def SetSpace_def
      split: if_splits sum.splits bool.splits)

lemma MakeMove_can:
  assumes "CanMakeMove b Column = Inr True"
  shows "MakeMove Move Column b =
    (Inr (), b\<lparr>LastMove := \<lparr>lm_x = Column, lm_y = scan_column (board b) Column Height, isInitialized = True\<rparr>,
       board := (board b)[scan_column (board b) Column Height :=
           (board b ! scan_column (board b) Column Height)[Column := ConvertMoveToSpaceState Move]]\<rparr>)"
  using assms
  by (auto simp: MakeMove_def CanMakeMove_def GetColumnHeight_def SetSpace_def
      split: if_splits sum.splits bool.splits)

lemma wf_board_new: "wf_board Board_new"
  by (simp add: wf_board_def Board_new_def)

lemma wf_board_update:
  assumes "wf_board b" "h < Height" "board b' = (board b)[h := (board b ! h)[c := t]]"
  shows "wf_board b'"
proof -
  have "length ((board b ! h)[c := t]) = Width"
    using assms(1,2) by (simp add: wf_board_def)
  moreover have "set (board b') \<subseteq> insert ((board b ! h)[c := t]) (set (board b))"
    using assms(3) set_update_subset_insert by metis
  ultimately show ?thesis
    using assms(1,3) by (auto simp: wf_board_def)
qed

lemma cell_update:
  assumes "wf_board b" "h < Height" "col < Width" "r < Height" "c < Width"
  shows "(board b)[h := (board b ! h)[col := t]] ! r ! c =
         (if r = h \<and> c = col then t else board b ! r ! c)"
  using assms by (auto simp: wf_board_def nth_list_update)

lemma MakeMove_wf:
  "wf_board b \<Longrightarrow> MakeMove Move Column b = (Inr (), b') \<Longrightarrow> wf_board b'"
  using MakeMove_success(2,3) wf_board_update by blast

lemma reachable_wf: "reachable b \<Longrightarrow> wf_board b"
  by (induction rule: reachable.induct) (auto intro: wf_board_new MakeMove_wf)

lemma MakeMove_cell_new:
  assumes "wf_board b" "MakeMove Move Column b = (Inr (), b')"
  shows "board b' ! scan_column (board b) Column Height ! Column = ConvertMoveToSpaceState Move"
  using MakeMove_success [OF assms(2)] cell_update [OF assms(1)] by simp

lemma MakeMove_cell_other:
  assumes "wf_board b" "MakeMove Move Column b = (Inr (), b')" "r < Height" "c < Width"
    and "r \<noteq> scan_column (board b) Column Height \<or> c \<noteq> Column"
  shows "board b' ! r ! c = board b ! r ! c"
proof -
  let ?h = "scan_column (board b) Column Height"
  have "(board b)[?h := (board b ! ?h)[Column := ConvertMoveToSpaceState Move]] ! r ! c =
        (if r = ?h \<and> c = Column then ConvertMoveToSpaceState Move else board b ! r ! c)"
    by (rule cell_update [OF assms(1) MakeMove_success(2,1) [OF assms(2)] assms(3,4)])
  also have "\<dots> = board b ! r ! c"
    using assms(5) by (simp only: if_False de_Morgan_conj [symmetric] simp_thms)
  finally show ?thesis
    using MakeMove_success(3) [OF assms(2)] by simp
qed

lemma CheckWin_board_cong: "board b = board b' \<Longrightarrow> CheckWin b player = CheckWin b' player"
  by (simp add: CheckWin_def)

lemma CheckWin_new: "\<not> CheckWin Board_new Player2"
  by code_simp

lemma CanMakeMove_assign: "CanMakeMove (assign d b) c = CanMakeMove b c"
  by (simp add: CanMakeMove_def GetColumnHeight_def assign_def)

lemma CanMakeMove_in_range: "c < Width \<Longrightarrow> \<exists>v. CanMakeMove b c = Inr v"
  by (simp add: CanMakeMove_def GetColumnHeight_def)

lemma MakeMove_assign:
  assumes "CanMakeMove b c = Inr True"
  shows "fst (MakeMove m c (assign d b)) = Inr ()"
    and "board (snd (MakeMove m c (assign d b))) = board (snd (MakeMove m c b))"
  using MakeMove_can [OF assms, of m]
    MakeMove_can [of "assign d b" c m, unfolded CanMakeMove_assign, OF assms]
  by (simp_all add: assign_def)

lemma copy_trial:
  assumes "CanMakeMove b i = Inr True"
  obtains bw where "MakeMove m i (assign Board_new b) = (Inr (), bw)"
    and "CheckWin bw player = CheckWin (snd (MakeMove m i b)) player"
proof -
  obtain bw where bw: "MakeMove m i (assign Board_new b) = (Inr (), bw)"
    using MakeMove_assign(1) [OF assms, of m Board_new]
    by (cases "MakeMove m i (assign Board_new b)") simp
  have "board bw = board (snd (MakeMove m i b))"
    using MakeMove_assign(2) [OF assms, of m Board_new] bw by simp
  then have "CheckWin bw player = CheckWin (snd (MakeMove m i b)) player"
    by (rule CheckWin_board_cong)
  then show thesis using bw that by blast
qed

lemma columns_split: "Column < Width \<Longrightarrow> [0..<Width] = [0..<Column] @ Column # [Suc Column..<Width]"
  using upt_add_eq_append [of 0 Column "Width - Column"] by (simp add: upt_conv_Cons)

subsection \<open>Where the tokens of a column lie\<close>

lemma gravity_to_last_rowD:
  assumes "gravity_to_last_row b" "c < Width" "r < r'" "r' < Height" "board b ! r ! c \<noteq> Empty"
  shows "board b ! r' ! c \<noteq> Empty"
proof -
  have "c \<in> set [0..<Width]" "r \<in> set [0..<Height]" "r' \<in> set [Suc r..<Height]"
    using assms(2-4) by simp_all
  then show ?thesis
    using assms(1,5) unfolding gravity_to_last_row_def by blast
qed

lemma MakeMove_gravity:
  assumes wf: "wf_board b" and g: "gravity_to_last_row b"
    and mv: "MakeMove Move Column b = (Inr (), b')"
  shows "gravity_to_last_row b'"
  unfolding gravity_to_last_row_def
proof (intro ballI impI)
  fix c r r'
  assume c: "c \<in> set [0..<Width]" and r: "r \<in> set [0..<Height]"
    and ne: "board b' ! r ! c \<noteq> Empty" and r': "r' \<in> set [Suc r..<Height]"
  let ?h = "scan_column (board b) Column Height"
  have cw: "c < Width" and rh: "r < Height" and r'h: "r' < Height" and rr': "r < r'"
    using c r r' by simp_all
  show "board b' ! r' ! c \<noteq> Empty"
  proof (cases "r' = ?h \<and> c = Column")
    case True
    then show ?thesis
      using MakeMove_cell_new [OF wf mv] ConvertMoveToSpaceState_not_Empty by simp
  next
    case False
    then have eq': "board b' ! r' ! c = board b ! r' ! c"
      by (intro MakeMove_cell_other [OF wf mv r'h cw]) blast
    show ?thesis
    proof (cases "r = ?h \<and> c = Column")
      case True
      then have "?h < r'" "c = Column" using rr' by simp_all
      then have "board b ! r' ! c \<noteq> Empty"
        using scan_column_above [of "board b" Column Height r'] r'h by simp
      then show ?thesis using eq' by simp
    next
      case False
      then have "board b' ! r ! c = board b ! r ! c"
        by (intro MakeMove_cell_other [OF wf mv rh cw]) blast
      then have "board b ! r ! c \<noteq> Empty"
        using ne by simp
      then have "board b ! r' ! c \<noteq> Empty"
        using gravity_to_last_rowD [OF g cw rr' r'h] by simp
      then show ?thesis using eq' by simp
    qed
  qed
qed

lemma gravity_new: "gravity_to_last_row Board_new"
  by (simp add: gravity_to_last_row_def Board_new_def)

lemma reachable_gravity: "reachable b \<Longrightarrow> gravity_to_last_row b"
proof (induction rule: reachable.induct)
  case start
  show ?case by (rule gravity_new)
next
  case (move b Move Column b')
  then show ?case using MakeMove_gravity reachable_wf by blast
qed

lemma landing_row:
  assumes g: "gravity_to_last_row b" and c: "Column < Width"
    and h: "scan_column (board b) Column Height < Height" and r: "r < Height"
  shows "board b ! r ! Column = Empty \<longleftrightarrow> r \<le> scan_column (board b) Column Height"
proof
  assume e: "board b ! r ! Column = Empty"
  show "r \<le> scan_column (board b) Column Height"
  proof (rule ccontr)
    assume "\<not> r \<le> scan_column (board b) Column Height"
    then have "scan_column (board b) Column Height < r" by simp
    then have "board b ! r ! Column \<noteq> Empty"
      using scan_column_above [of "board b" Column Height r] r by simp
    then show False using e by simp
  qed
next
  let ?h = "scan_column (board b) Column Height"
  assume le: "r \<le> ?h"
  have e: "board b ! ?h ! Column = Empty" using scan_column_empty [OF h] by simp
  show "board b ! r ! Column = Empty"
  proof (cases "r = ?h")
    case True
    then show ?thesis using e by simp
  next
    case False
    then have lt: "r < ?h" using le by simp
    show ?thesis
    proof (rule ccontr)
      assume "board b ! r ! Column \<noteq> Empty"
      then have "board b ! ?h ! Column \<noteq> Empty"
        by (rule gravity_to_last_rowD [OF g c lt h])
      then show False using e by simp
    qed
  qed
qed

text \<open>The invariant with the run starting at row \<open>0\<close> is lost with the first move.\<close>

lemma gravity_from_row0_fails: "\<not> gravity_from_row0 example_first_move"
  by code_simp

subsection \<open>The loops of the automated player\<close>

lemma win_now_step_skip:
  assumes "i < Width" "\<not> wins_at b MovePlayer2 i"
  shows "win_now b (i # cols) = win_now b cols"
proof -
  obtain v where v: "CanMakeMove b i = Inr v"
    using CanMakeMove_in_range [OF assms(1)] by blast
  show ?thesis
  proof (cases v)
    case False
    then show ?thesis using v by (simp add: CanMakeMove_assign)
  next
    case True
    then have can: "CanMakeMove b i = Inr True" using v by simp
    obtain bw where bw: "MakeMove MovePlayer2 i (assign Board_new b) = (Inr (), bw)"
      using MakeMove_assign(1) [OF can, of MovePlayer2 Board_new]
      by (cases "MakeMove MovePlayer2 i (assign Board_new b)") simp
    have "board bw = board (snd (MakeMove MovePlayer2 i b))"
      using MakeMove_assign(2) [OF can, of MovePlayer2 Board_new] bw by simp
    then have "CheckWin bw Player2 = CheckWin (snd (MakeMove MovePlayer2 i b)) Player2"
      by (rule CheckWin_board_cong)
    then have "\<not> CheckWin bw Player2"
      using assms(2) can by (simp add: wins_at_def)
    then show ?thesis
      using can bw by (simp add: CanMakeMove_assign)
  qed
qed

lemma win_now_step_hit:
  assumes "wins_at b MovePlayer2 i"
  shows "win_now b (i # cols) = Some (GameOver Player2Wins, snd (MakeMove MovePlayer2 i b))"
proof -
  have can: "CanMakeMove b i = Inr True" using assms by (simp add: wins_at_def)
  obtain bw where bw: "MakeMove MovePlayer2 i (assign Board_new b) = (Inr (), bw)"
    using MakeMove_assign(1) [OF can, of MovePlayer2 Board_new]
    by (cases "MakeMove MovePlayer2 i (assign Board_new b)") simp
  have "board bw = board (snd (MakeMove MovePlayer2 i b))"
    using MakeMove_assign(2) [OF can, of MovePlayer2 Board_new] bw by simp
  then have "CheckWin bw Player2 = CheckWin (snd (MakeMove MovePlayer2 i b)) Player2"
    by (rule CheckWin_board_cong)
  then have win: "CheckWin bw Player2"
    using assms by (simp add: wins_at_def)
  show ?thesis
    using can bw win MakeMove_can [OF can, of MovePlayer2] by (simp add: CanMakeMove_assign)
qed

lemma win_now_first:
  assumes "\<forall>c \<in> set pre. c < Width \<and> \<not> wins_at b MovePlayer2 c" "wins_at b MovePlayer2 Column"
  shows "win_now b (pre @ Column # post) =
         Some (GameOver Player2Wins, snd (MakeMove MovePlayer2 Column b))"
  using assms
proof (induction pre)
  case Nil
  then show ?case using win_now_step_hit by simp
next
  case (Cons i pre)
  then show ?case using win_now_step_skip [of i b] by simp
qed

lemma win_now_none:
  assumes "\<forall>c \<in> set cols. c < Width \<and> \<not> wins_at b MovePlayer2 c"
  shows "win_now b cols = None"
  using assms
proof (induction cols)
  case Nil
  then show ?case by simp
next
  case (Cons i cols)
  then show ?case using win_now_step_skip [of i b] by simp
qed

lemma block_play_step_skip:
  assumes "i < Width" "\<not> wins_at b MovePlayer1 i"
  shows "block_play b (i # cols) = block_play b cols"
proof -
  obtain v where v: "CanMakeMove b i = Inr v"
    using CanMakeMove_in_range [OF assms(1)] by blast
  show ?thesis
  proof (cases v)
    case False
    then show ?thesis using v by (simp add: CanMakeMove_assign)
  next
    case True
    then have can: "CanMakeMove b i = Inr True" using v by simp
    obtain bw where bw: "MakeMove MovePlayer1 i (assign Board_new b) = (Inr (), bw)"
      and cw: "CheckWin bw Player1 = CheckWin (snd (MakeMove MovePlayer1 i b)) Player1"
      using copy_trial [OF can] by blast
    have "\<not> CheckWin bw Player1"
      using assms(2) can cw by (simp add: wins_at_def)
    then show ?thesis
      using can bw by (simp add: CanMakeMove_assign)
  qed
qed

lemma block_play_step_hit:
  assumes "wins_at b MovePlayer1 i" "\<not> wins_at b MovePlayer2 i"
  shows "block_play b (i # cols) = (None, True, snd (MakeMove MovePlayer2 i b))"
proof -
  have can: "CanMakeMove b i = Inr True" using assms(1) by (simp add: wins_at_def)
  obtain bw where bw: "MakeMove MovePlayer1 i (assign Board_new b) = (Inr (), bw)"
    and cw: "CheckWin bw Player1 = CheckWin (snd (MakeMove MovePlayer1 i b)) Player1"
    using copy_trial [OF can] by blast
  have win: "CheckWin bw Player1"
    using assms(1) cw by (simp add: wins_at_def)
  have nowin: "\<not> CheckWin (snd (MakeMove MovePlayer2 i b)) Player2"
    using assms(2) can by (simp add: wins_at_def)
  show ?thesis
    using can bw win nowin MakeMove_can [OF can, of MovePlayer2]
    by (simp add: CanMakeMove_assign)
qed

lemma block_play_first:
  assumes "\<forall>c \<in> set pre. c < Width \<and> \<not> wins_at b MovePlayer1 c"
    and "wins_at b MovePlayer1 Column" "\<not> wins_at b MovePlayer2 Column"
  shows "block_play b (pre @ Column # post) = (None, True, snd (MakeMove MovePlayer2 Column b))"
  using assms
proof (induction pre)
  case Nil
  then show ?case using block_play_step_hit by simp
next
  case (Cons i pre)
  then show ?case using block_play_step_skip [of i b] by simp
qed

subsection \<open>What GetColumnHeight returns on reachable boards\<close>

lemma scan_column_le: "n \<le> Height \<Longrightarrow> scan_column g c n \<le> Height"
  by (induction n) auto

lemma occupied_cells_card:
  "occupied_cells b Column = card {r. r < Height \<and> board b ! r ! Column \<noteq> Empty}"
proof -
  have "{i. i < Height \<and> board b ! ([0..<Height] ! i) ! Column \<noteq> Empty} =
        {r. r < Height \<and> board b ! r ! Column \<noteq> Empty}"
    by auto
  then show ?thesis
    by (simp add: occupied_cells_def length_filter_conv_card)
qed

text \<open>
  On a reachable board \<open>GetColumnHeight\<close> returns \<open>Height\<close> for a full column and
  otherwise \<open>Height - 1\<close> minus the number of occupied cells: the index of the row
  the next token goes to.
\<close>

lemma GetColumnHeight_reachable:
  assumes "reachable b" "Column < Width"
  shows "GetColumnHeight b Column =
         Inr (if occupied_cells b Column = Height then Height
              else Height - 1 - occupied_cells b Column)"
proof -
  let ?h = "scan_column (board b) Column Height"
  have g: "gravity_to_last_row b" using assms(1) by (rule reachable_gravity)
  have le: "?h \<le> Height" by (rule scan_column_le) simp
  show ?thesis
  proof (cases "?h < Height")
    case True
    have "{r. r < Height \<and> board b ! r ! Column \<noteq> Empty} = {Suc ?h..<Height}"
      using landing_row [OF g assms(2) True] by auto
    then have "occupied_cells b Column = Height - Suc ?h"
      by (simp add: occupied_cells_card)
    then show ?thesis
      using True assms(2) by (simp add: GetColumnHeight_def)
  next
    case False
    then have h: "?h = Height" using le by simp
    then have "\<forall>r < Height. board b ! r ! Column \<noteq> Empty"
      using scan_column_lt_iff [of Height "board b" Column] by simp
    then have "{r. r < Height \<and> board b ! r ! Column \<noteq> Empty} = {0..<Height}"
      by auto
    then have "occupied_cells b Column = Height"
      by (simp add: occupied_cells_card)
    then show ?thesis
      using h assms(2) by (simp add: GetColumnHeight_def)
  qed
qed

subsection \<open>The windows of CheckWin\<close>

lemma bex_upt: "(\<exists>x \<in> set [a..<b]. P x) \<longleftrightarrow> (\<exists>x. a \<le> x \<and> x < b \<and> P x)"
  by auto

lemma win_horizontal_iff:
  "win_horizontal g player \<longleftrightarrow>
   (\<exists>r c. r < Height \<and> c + 3 < Width \<and> g ! r ! c = player \<and> g ! r ! (c + 1) = player \<and>
      g ! r ! (c + 2) = player \<and> g ! r ! (c + 3) = player)"
  unfolding win_horizontal_def bex_upt by (simp add: Width_def)

lemma win_vertical_iff:
  "win_vertical g player \<longleftrightarrow>
   (\<exists>r c. r + 3 < Height \<and> c < Width \<and> g ! r ! c = player \<and> g ! (r + 1) ! c = player \<and>
      g ! (r + 2) ! c = player \<and> g ! (r + 3) ! c = player)"
  unfolding win_vertical_def bex_upt by (simp add: Height_def) blast

lemma win_diagonal_down_iff:
  "win_diagonal_down g player \<longleftrightarrow>
   (\<exists>r c. r + 3 < Height \<and> c + 3 < Width \<and> g ! r ! c = player \<and>
      g ! (r + 1) ! (c + 1) = player \<and> g ! (r + 2) ! (c + 2) = player \<and>
      g ! (r + 3) ! (c + 3) = player)"
  unfolding win_diagonal_down_def bex_upt by (simp add: Height_def Width_def)

lemma win_diagonal_up_iff:
  "win_diagonal_up g player \<longleftrightarrow>
   (\<exists>r c. 3 \<le> r \<and> r < Height \<and> c + 3 < Width \<and> g ! r ! c = player \<and>
      g ! (r - 1) ! (c + 1) = player \<and> g ! (r - 2) ! (c + 2) = player \<and>
      g ! (r - 3) ! (c + 3) = player)"
  unfolding win_diagonal_up_def bex_upt by (simp add: Width_def)

lemma aligned_cells:
  assumes "\<forall>i \<in> set [0..<4]. cell_at b (int r + int i * dr) (int c + int i * dc) = Some player"
  shows "cell_at b (int r) (int c) = Some player"
    and "cell_at b (int r + dr) (int c + dc) = Some player"
    and "cell_at b (int r + 2 * dr) (int c + 2 * dc) = Some player"
    and "cell_at b (int r + 3 * dr) (int c + 3 * dc) = Some player"
proof -
  have "cell_at b (int r + int 0 * dr) (int c + int 0 * dc) = Some player"
    using assms by (rule bspec) simp
  then show "cell_at b (int r) (int c) = Some player" by simp
  have "cell_at b (int r + int 1 * dr) (int c + int 1 * dc) = Some player"
    using assms by (rule bspec) simp
  then show "cell_at b (int r + dr) (int c + dc) = Some player" by simp
  have "cell_at b (int r + int 2 * dr) (int c + int 2 * dc) = Some player"
    using assms by (rule bspec) simp
  then show "cell_at b (int r + 2 * dr) (int c + 2 * dc) = Some player" by simp
  have "cell_at b (int r + int 3 * dr) (int c + int 3 * dc) = Some player"
    using assms by (rule bspec) simp
  then show "cell_at b (int r + 3 * dr) (int c + 3 * dc) = Some player" by simp
qed

lemma cell_atD:
  "cell_at b r c = Some player \<Longrightarrow>
   0 \<le> r \<and> r < int Height \<and> 0 \<le> c \<and> c < int Width \<and> board b ! nat r ! nat c = player"
  by (simp add: cell_at_def split: if_splits)

lemma cell_atI:
  "r < Height \<Longrightarrow> c < Width \<Longrightarrow> board b ! r ! c = player \<Longrightarrow>
   cell_at b (int r) (int c) = Some player"
  by (simp add: cell_at_def)

lemma four_cases:
  "i \<in> set [0..<4] \<Longrightarrow> P 0 \<Longrightarrow> P 1 \<Longrightarrow> P 2 \<Longrightarrow> P 3 \<Longrightarrow> P (i::nat)"
proof -
  assume "i \<in> set [0..<4]" and p: "P 0" "P 1" "P 2" "P 3"
  then have "i = 0 \<or> i = 1 \<or> i = 2 \<or> i = 3" by auto
  then show "P i" using p by blast
qed

lemma four_alignedI:
  assumes "r < Height" "c < Width" "d \<in> set directions"
    and "\<forall>i \<in> set [0..<4]. cell_at b (int r + int i * fst d) (int c + int i * snd d) = Some player"
  shows "four_aligned b player"
  unfolding four_aligned_def using assms by force

lemma four_aligned_horizontal:
  assumes "\<forall>i \<in> set [0..<4]. cell_at b (int r + int i * 0) (int c + int i * 1) = Some player"
  shows "win_horizontal (board b) player"
proof -
  note a = aligned_cells [OF assms]
  have "r < Height" "c + 3 < Width"
    using cell_atD [OF a(1)] cell_atD [OF a(4)] by simp_all
  moreover have "board b ! r ! c = player" "board b ! r ! (c + 1) = player"
    "board b ! r ! (c + 2) = player" "board b ! r ! (c + 3) = player"
    using cell_atD [OF a(1)] cell_atD [OF a(2)] cell_atD [OF a(3)] cell_atD [OF a(4)]
    by (simp_all add: nat_add_distrib)
  ultimately show ?thesis
    unfolding win_horizontal_iff by blast
qed

lemma four_aligned_vertical:
  assumes "\<forall>i \<in> set [0..<4]. cell_at b (int r + int i * 1) (int c + int i * 0) = Some player"
  shows "win_vertical (board b) player"
proof -
  note a = aligned_cells [OF assms]
  have "r + 3 < Height" "c < Width"
    using cell_atD [OF a(1)] cell_atD [OF a(4)] by simp_all
  moreover have "board b ! r ! c = player" "board b ! (r + 1) ! c = player"
    "board b ! (r + 2) ! c = player" "board b ! (r + 3) ! c = player"
    using cell_atD [OF a(1)] cell_atD [OF a(2)] cell_atD [OF a(3)] cell_atD [OF a(4)]
    by (simp_all add: nat_add_distrib)
  ultimately show ?thesis
    unfolding win_vertical_iff by blast
qed

lemma four_aligned_diagonal_down:
  assumes "\<forall>i \<in> set [0..<4]. cell_at b (int r + int i * 1) (int c + int i * 1) = Some player"
  shows "win_diagonal_down (board b) player"
proof -
  note a = aligned_cells [OF assms]
  have "r + 3 < Height" "c + 3 < Width"
    using cell_atD [OF a(1)] cell_atD [OF a(4)] by simp_all
  moreover have "board b ! r ! c = player" "board b ! (r + 1) ! (c + 1) = player"
    "board b ! (r + 2) ! (c + 2) = player" "board b ! (r + 3) ! (c + 3) = player"
    using cell_atD [OF a(1)] cell_atD [OF a(2)] cell_atD [OF a(3)] cell_atD [OF a(4)]
    by (simp_all add: nat_add_distrib)
  ultimately show ?thesis
    unfolding win_diagonal_down_iff by blast
qed

lemma four_aligned_diagonal_up:
  assumes "\<forall>i \<in> set [0..<4]. cell_at b (int r + int i * (- 1)) (int c + int i * 1) = Some player"
  shows "win_diagonal_up (board b) player"
proof -
  note a = aligned_cells [OF assms]
  have "3 \<le> r" "r < Height" "c + 3 < Width"
    using cell_atD [OF a(1)] cell_atD [OF a(4)] by simp_all
  moreover have "board b ! r ! c = player" "board b ! (r - 1) ! (c + 1) = player"
    "board b ! (r - 2) ! (c + 2) = player" "board b ! (r - 3) ! (c + 3) = player"
    using cell_atD [OF a(1)] cell_atD [OF a(2)] cell_atD [OF a(3)] cell_atD [OF a(4)] \<open>3 \<le> r\<close>
    by (simp_all add: nat_add_distrib nat_diff_distrib')
  ultimately show ?thesis
    unfolding win_diagonal_up_iff by blast
qed

lemma four_aligned_CheckWin:
  assumes "four_aligned b player"
  shows "CheckWin b player"
proof -
  obtain r c d where d: "d \<in> set directions"
    and a: "\<forall>i \<in> set [0..<4]. cell_at b (int r + int i * fst d) (int c + int i * snd d) = Some player"
    using assms unfolding four_aligned_def by blast
  from d consider "d = (0, 1)" | "d = (1, 0)" | "d = (1, 1)" | "d = (- 1, 1)"
    by (auto simp: directions_def)
  then show ?thesis
  proof cases
    case 1
    then show ?thesis using a four_aligned_horizontal [of b r c player] by (simp add: CheckWin_def)
  next
    case 2
    then show ?thesis using a four_aligned_vertical [of b r c player] by (simp add: CheckWin_def)
  next
    case 3
    then show ?thesis using a four_aligned_diagonal_down [of b r c player] by (simp add: CheckWin_def)
  next
    case 4
    then show ?thesis using a four_aligned_diagonal_up [of b r c player] by (simp add: CheckWin_def)
  qed
qed

lemma win_horizontal_aligned:
  assumes "win_horizontal (board b) player"
  shows "four_aligned b player"
proof -
  obtain r c where rc: "r < Height" "c + 3 < Width"
    and t: "board b ! r ! c = player" "board b ! r ! (c + 1) = player"
      "board b ! r ! (c + 2) = player" "board b ! r ! (c + 3) = player"
    using assms unfolding win_horizontal_iff by blast
  have "\<forall>i \<in> set [0..<4]. cell_at b (int r + int i * 0) (int c + int i * 1) = Some player"
  proof
    fix i :: nat
    assume i: "i \<in> set [0..<4]"
    have "board b ! r ! (c + i) = player"
      using t by (intro four_cases [where P = "\<lambda>i. board b ! r ! (c + i) = player", OF i]) simp_all
    moreover have "c + i < Width" using i rc by simp
    ultimately have "cell_at b (int r) (int (c + i)) = Some player"
      using rc(1) by (intro cell_atI)
    then show "cell_at b (int r + int i * 0) (int c + int i * 1) = Some player" by simp
  qed
  then show ?thesis
    using rc by (intro four_alignedI [of r c "(0, 1)"]) (simp_all add: directions_def)
qed

lemma win_vertical_aligned:
  assumes "win_vertical (board b) player"
  shows "four_aligned b player"
proof -
  obtain r c where rc: "r + 3 < Height" "c < Width"
    and t: "board b ! r ! c = player" "board b ! (r + 1) ! c = player"
      "board b ! (r + 2) ! c = player" "board b ! (r + 3) ! c = player"
    using assms unfolding win_vertical_iff by blast
  have "\<forall>i \<in> set [0..<4]. cell_at b (int r + int i * 1) (int c + int i * 0) = Some player"
  proof
    fix i :: nat
    assume i: "i \<in> set [0..<4]"
    have "board b ! (r + i) ! c = player"
      using t by (intro four_cases [where P = "\<lambda>i. board b ! (r + i) ! c = player", OF i]) simp_all
    moreover have "r + i < Height" using i rc by simp
    ultimately have "cell_at b (int (r + i)) (int c) = Some player"
      using rc(2) by (intro cell_atI)
    then show "cell_at b (int r + int i * 1) (int c + int i * 0) = Some player" by simp
  qed
  then show ?thesis
    using rc by (intro four_alignedI [of r c "(1, 0)"]) (simp_all add: directions_def)
qed

lemma win_diagonal_down_aligned:
  assumes "win_diagonal_down (board b) player"
  shows "four_aligned b player"
proof -
  obtain r c where rc: "r + 3 < Height" "c + 3 < Width"
    and t: "board b ! r ! c = player" "board b ! (r + 1) ! (c + 1) = player"
      "board b ! (r + 2) ! (c + 2) = player" "board b ! (r + 3) ! (c + 3) = player"
    using assms unfolding win_diagonal_down_iff by blast
  have "\<forall>i \<in> set [0..<4]. cell_at b (int r + int i * 1) (int c + int i * 1) = Some player"
  proof
    fix i :: nat
    assume i: "i \<in> set [0..<4]"
    have "board b ! (r + i) ! (c + i) = player"
      using t by (intro four_cases [where P = "\<lambda>i. board b ! (r + i) ! (c + i) = player", OF i]) simp_all
    moreover have "r + i < Height" "c + i < Width" using i rc by simp_all
    ultimately have "cell_at b (int (r + i)) (int (c + i)) = Some player"
      by (intro cell_atI)
    then show "cell_at b (int r + int i * 1) (int c + int i * 1) = Some player" by simp
  qed
  then show ?thesis
    using rc by (intro four_alignedI [of r c "(1, 1)"]) (simp_all add: directions_def)
qed

lemma win_diagonal_up_aligned:
  assumes "win_diagonal_up (board b) player"
  shows "four_aligned b player"
proof -
  obtain r c where rc: "3 \<le> r" "r < Height" "c + 3 < Width"
    and t: "board b ! r ! c = player" "board b ! (r - 1) ! (c + 1) = player"
      "board b ! (r - 2) ! (c + 2) = player" "board b ! (r - 3) ! (c + 3) = player"
    using assms unfolding win_diagonal_up_iff by blast
  have "\<forall>i \<in> set [0..<4]. cell_at b (int r + int i * (- 1)) (int c + int i * 1) = Some player"
  proof
    fix i :: nat
    assume i: "i \<in> set [0..<4]"
    have "board b ! (r - i) ! (c + i) = player"
      using t by (intro four_cases [where P = "\<lambda>i. board b ! (r - i) ! (c + i) = player", OF i]) simp_all
    moreover have "r - i < Height" "c + i < Width" using i rc by simp_all
    ultimately have "cell_at b (int (r - i)) (int (c + i)) = Some player"
      by (intro cell_atI)
    moreover have "i \<le> r" using i rc(1) by simp
    ultimately show "cell_at b (int r + int i * (- 1)) (int c + int i * 1) = Some player"
      by (simp add: of_nat_diff)
  qed
  then show ?thesis
    using rc by (intro four_alignedI [of r c "(- 1, 1)"]) (simp_all add: directions_def)
qed

lemma CheckWin_four_aligned: "CheckWin b player \<Longrightarrow> four_aligned b player"
  unfolding CheckWin_def
  using win_horizontal_aligned win_vertical_aligned win_diagonal_down_aligned
    win_diagonal_up_aligned
  by blast

lemma tokens_in_line_ge:
  assumes "distinct w" "set w \<subseteq> set line" "\<forall>p \<in> set w. board b ! fst p ! snd p = player"
  shows "length w \<le> tokens_in_line b player line"
proof -
  have "set w \<subseteq> set (filter (\<lambda>p. board b ! fst p ! snd p = player) line)"
    using assms(2,3) by auto
  then have "card (set w) \<le> card (set (filter (\<lambda>p. board b ! fst p ! snd p = player) line))"
    by (intro card_mono) simp_all
  also have "\<dots> \<le> length (filter (\<lambda>p. board b ! fst p ! snd p = player) line)"
    by (rule card_length)
  finally show ?thesis
    using assms(1) by (simp add: tokens_in_line_def distinct_card)
qed

lemma in_all_cells: "(r, c) \<in> set all_cells \<longleftrightarrow> r < Height \<and> c < Width"
  by (simp add: all_cells_def)

lemma row_line: "r < Height \<Longrightarrow> filter (\<lambda>p. fst p = r) all_cells \<in> set board_lines"
  by (simp add: board_lines_def)

lemma column_line: "c < Width \<Longrightarrow> filter (\<lambda>p. snd p = c) all_cells \<in> set board_lines"
  by (simp add: board_lines_def)

lemma diagonal_line:
  "d < Height + Width - 1 \<Longrightarrow>
   filter (\<lambda>p. fst p + d = snd p + (Height - 1)) all_cells \<in> set board_lines"
  by (simp add: board_lines_def)

lemma antidiagonal_line:
  "s < Height + Width - 1 \<Longrightarrow> filter (\<lambda>p. fst p + snd p = s) all_cells \<in> set board_lines"
  by (simp add: board_lines_def)

lemma four_tokens_line:
  assumes "line \<in> set board_lines" "distinct [p0, p1, p2, p3]"
    and "set [p0, p1, p2, p3] \<subseteq> set line"
    and "\<forall>p \<in> set [p0, p1, p2, p3]. board b ! fst p ! snd p = player"
  shows "\<not> at_most_three_in_any_line b player"
proof -
  have "length [p0, p1, p2, p3] \<le> tokens_in_line b player line"
    using assms(2-4) by (rule tokens_in_line_ge)
  then have "4 \<le> tokens_in_line b player line" by simp
  then show ?thesis
    using assms(1) unfolding at_most_three_in_any_line_def by fastforce
qed

lemma win_horizontal_line:
  assumes "win_horizontal (board b) player"
  shows "\<not> at_most_three_in_any_line b player"
proof -
  obtain r c where rc: "r < Height" "c + 3 < Width"
    and t: "board b ! r ! c = player" "board b ! r ! (c + 1) = player"
      "board b ! r ! (c + 2) = player" "board b ! r ! (c + 3) = player"
    using assms unfolding win_horizontal_iff by blast
  show ?thesis
  proof (rule four_tokens_line [OF row_line [OF rc(1)]])
    show "distinct [(r, c), (r, c + 1), (r, c + 2), (r, c + 3)]" by simp
    show "set [(r, c), (r, c + 1), (r, c + 2), (r, c + 3)] \<subseteq> set (filter (\<lambda>p. fst p = r) all_cells)"
      using rc by (simp add: in_all_cells)
    show "\<forall>p \<in> set [(r, c), (r, c + 1), (r, c + 2), (r, c + 3)]. board b ! fst p ! snd p = player"
      using t by simp
  qed
qed

lemma win_vertical_line:
  assumes "win_vertical (board b) player"
  shows "\<not> at_most_three_in_any_line b player"
proof -
  obtain r c where rc: "r + 3 < Height" "c < Width"
    and t: "board b ! r ! c = player" "board b ! (r + 1) ! c = player"
      "board b ! (r + 2) ! c = player" "board b ! (r + 3) ! c = player"
    using assms unfolding win_vertical_iff by blast
  show ?thesis
  proof (rule four_tokens_line [OF column_line [OF rc(2)]])
    show "distinct [(r, c), (r + 1, c), (r + 2, c), (r + 3, c)]" by simp
    show "set [(r, c), (r + 1, c), (r + 2, c), (r + 3, c)] \<subseteq> set (filter (\<lambda>p. snd p = c) all_cells)"
      using rc by (simp add: in_all_cells)
    show "\<forall>p \<in> set [(r, c), (r + 1, c), (r + 2, c), (r + 3, c)]. board b ! fst p ! snd p = player"
      using t by simp
  qed
qed

lemma win_diagonal_down_line:
  assumes "win_diagonal_down (board b) player"
  shows "\<not> at_most_three_in_any_line b player"
proof -
  obtain r c where rc: "r + 3 < Height" "c + 3 < Width"
    and t: "board b ! r ! c = player" "board b ! (r + 1) ! (c + 1) = player"
      "board b ! (r + 2) ! (c + 2) = player" "board b ! (r + 3) ! (c + 3) = player"
    using assms unfolding win_diagonal_down_iff by blast
  define d where "d = c + (Height - 1) - r"
  have d: "d < Height + Width - 1" "r + d = c + (Height - 1)"
    using rc by (simp_all add: d_def)
  show ?thesis
  proof (rule four_tokens_line [OF diagonal_line [OF d(1)]])
    show "distinct [(r, c), (r + 1, c + 1), (r + 2, c + 2), (r + 3, c + 3)]" by simp
    show "set [(r, c), (r + 1, c + 1), (r + 2, c + 2), (r + 3, c + 3)]
          \<subseteq> set (filter (\<lambda>p. fst p + d = snd p + (Height - 1)) all_cells)"
      using rc d(2) by (simp add: in_all_cells)
    show "\<forall>p \<in> set [(r, c), (r + 1, c + 1), (r + 2, c + 2), (r + 3, c + 3)].
            board b ! fst p ! snd p = player"
      using t by simp
  qed
qed

lemma win_diagonal_up_line:
  assumes "win_diagonal_up (board b) player"
  shows "\<not> at_most_three_in_any_line b player"
proof -
  obtain r c where rc: "3 \<le> r" "r < Height" "c + 3 < Width"
    and t: "board b ! r ! c = player" "board b ! (r - 1) ! (c + 1) = player"
      "board b ! (r - 2) ! (c + 2) = player" "board b ! (r - 3) ! (c + 3) = player"
    using assms unfolding win_diagonal_up_iff by blast
  have s: "r + c < Height + Width - 1"
    using rc by simp
  show ?thesis
  proof (rule four_tokens_line [OF antidiagonal_line [OF s]])
    show "distinct [(r, c), (r - 1, c + 1), (r - 2, c + 2), (r - 3, c + 3)]" by simp
    show "set [(r, c), (r - 1, c + 1), (r - 2, c + 2), (r - 3, c + 3)]
          \<subseteq> set (filter (\<lambda>p. fst p + snd p = r + c) all_cells)"
      using rc by (auto simp: in_all_cells)
    show "\<forall>p \<in> set [(r, c), (r - 1, c + 1), (r - 2, c + 2), (r - 3, c + 3)].
            board b ! fst p ! snd p = player"
      using t by simp
  qed
qed

lemma CheckWin_line:
  "CheckWin b player \<Longrightarrow> \<not> at_most_three_in_any_line b player"
  unfolding CheckWin_def
  using win_horizontal_line win_vertical_line win_diagonal_down_line win_diagonal_up_line
  by blast

subsection \<open>The heap\<close>

lemma fill_frame: "a \<notin> set as \<Longrightarrow> fold fill_row as store a = store a"
  by (induction as arbitrary: store) (auto simp: fill_row_def)

lemma fill_hit: "a \<in> set as \<Longrightarrow> fold fill_row as store a = replicate Width Empty"
proof (induction as arbitrary: store)
  case Nil
  then show ?case by simp
next
  case (Cons x as)
  show ?case
  proof (cases "a \<in> set as")
    case True
    then show ?thesis using Cons.IH by simp
  next
    case False
    then have "a = x" using Cons.prems by simp
    then show ?thesis using False by (simp add: fill_frame) (simp add: fill_row_def)
  qed
qed

lemma copy_frame: "a \<notin> set ds \<Longrightarrow> fold copy_row (zip ds ss) store a = store a"
proof (induction ds arbitrary: ss store)
  case Nil
  then show ?case by simp
next
  case (Cons d ds)
  then show ?case by (cases ss) (auto simp: copy_row_def)
qed

lemma copy_rows:
  "length ds = length ss \<Longrightarrow> distinct ds \<Longrightarrow> \<forall>d \<in> set ds. d \<notin> set ss \<Longrightarrow>
   map (fold copy_row (zip ds ss) store) ds = map store ss"
proof (induction ds ss arbitrary: store rule: list_induct2)
  case Nil
  then show ?case by simp
next
  case (Cons d ds s ss)
  let ?store = "copy_row (d, s) store"
  have "fold copy_row (zip ds ss) ?store d = ?store d"
    using Cons.prems(1) by (simp add: copy_frame)
  then have head: "fold copy_row (zip ds ss) ?store d = store s"
    by (simp add: copy_row_def)
  have "map (fold copy_row (zip ds ss) ?store) ds = map ?store ss"
    using Cons.prems by (intro Cons.IH) auto
  also have "\<dots> = map store ss"
    using Cons.prems(2) by (auto simp: copy_row_def)
  finally show ?case using head by simp
qed

lemma h_assign_frame:
  "a \<notin> set (obj_rows dst) \<Longrightarrow> row_store (h_assign dst original h) a = row_store h a"
  by (simp add: h_assign_def copy_frame)

lemma h_assign_next_free: "next_free (h_assign dst original h) = next_free h"
  by (simp add: h_assign_def)

lemma separate_iff: "separate obj obj' \<longleftrightarrow> set (obj_rows obj) \<inter> set (obj_rows obj') = {}"
  by (auto simp: separate_def list_all_iff)

lemma load_frame:
  "\<forall>a \<in> set (obj_rows obj). row_store h' a = row_store h a \<Longrightarrow> load h' obj = load h obj"
  by (simp add: load_def)

text \<open>On separate objects the assignment on the heap is \<open>operator=\<close> on the values.\<close>

lemma h_assign_copies:
  assumes "owns_rows h dst" "owns_rows h original" "separate dst original"
  shows "load (h_assign dst original h) dst = assign (load h dst) (load h original)"
proof -
  have "map (row_store (h_assign dst original h)) (obj_rows dst) =
        map (row_store h) (obj_rows original)"
    using assms unfolding h_assign_def owns_rows_def separate_def list_all_iff
    by (simp add: copy_rows)
  then show ?thesis by (simp add: load_def assign_def)
qed

lemma h_MakeMove_frame:
  assumes "h_MakeMove Move Column obj h = (outcome, obj', h')" "length (obj_rows obj) = Height"
  shows "obj_rows obj' = obj_rows obj"
    and "next_free h' = next_free h"
    and "a \<notin> set (obj_rows obj) \<Longrightarrow> row_store h' a = row_store h a"
  using assms
  by (auto simp: h_MakeMove_def h_SetSpace_def split: sum.splits bool.splits if_splits)

lemma h_MakeMoves_frame:
  assumes "h_MakeMoves ms obj h = (obj', h')" "length (obj_rows obj) = Height"
  shows "obj_rows obj' = obj_rows obj \<and> next_free h' = next_free h \<and>
         (\<forall>a. a \<notin> set (obj_rows obj) \<longrightarrow> row_store h' a = row_store h a)"
  using assms
proof (induction ms arbitrary: obj h)
  case Nil
  then show ?case by simp
next
  case (Cons m ms)
  obtain Move Column where m: "m = (Move, Column)" by (cases m)
  obtain outcome obj1 h1 where step: "h_MakeMove Move Column obj h = (outcome, obj1, h1)"
    by (cases "h_MakeMove Move Column obj h")
  note f = h_MakeMove_frame [OF step Cons.prems(2)]
  have rest: "h_MakeMoves ms obj1 h1 = (obj', h')"
    using Cons.prems(1) m step by simp
  have "obj_rows obj' = obj_rows obj1 \<and> next_free h' = next_free h1 \<and>
        (\<forall>a. a \<notin> set (obj_rows obj1) \<longrightarrow> row_store h' a = row_store h1 a)"
    using rest f(1) Cons.prems(2) by (intro Cons.IH) simp_all
  then show ?case using f by simp
qed

lemma map_upd_nth:
  "distinct xs \<Longrightarrow> i < length xs \<Longrightarrow> map (f(xs ! i := v)) xs = (map f xs)[i := v]"
  by (rule nth_equalityI) (auto simp: nth_list_update nth_eq_iff_index_eq)

text \<open>\<open>MakeMove\<close> on the heap is \<open>MakeMove\<close> on the object's value.\<close>

lemma load_h_MakeMove:
  assumes "h_MakeMove Move Column obj h = (outcome, obj', h')"
    and "length (obj_rows obj) = Height" "distinct (obj_rows obj)"
  shows "MakeMove Move Column (load h obj) = (outcome, load h' obj')"
proof (cases "CanMakeMove (load h obj) Column = Inr True")
  case False
  then show ?thesis
    using assms(1) by (auto simp: h_MakeMove_def MakeMove_def split: sum.splits bool.splits)
next
  case True
  let ?ch = "scan_column (board (load h obj)) Column Height"
  let ?t = "ConvertMoveToSpaceState Move"
  note mv = MakeMove_can [OF True, of Move]
  have ok: "Column < Width" "?ch < Height"
    using MakeMove_success(1,2) [OF mv] by simp_all
  have gh: "GetColumnHeight (load h obj) Column = Inr ?ch"
    using ok(1) by (simp add: GetColumnHeight_def)
  have step: "h_MakeMove Move Column obj h = h_SetSpace ?ch Column ?t obj h"
    using True gh by (simp add: h_MakeMove_def)
  have out: "outcome = Inr ()"
    and obj': "obj' = obj\<lparr>obj_LastMove := \<lparr>lm_x = Column, lm_y = ?ch, isInitialized = True\<rparr>\<rparr>"
    and h': "h' = h\<lparr>row_store := (row_store h)
               (obj_rows obj ! ?ch := (row_store h (obj_rows obj ! ?ch))[Column := ?t])\<rparr>"
    using assms(1) step ok by (simp_all add: h_SetSpace_def)
  have "map (row_store h') (obj_rows obj) =
        (map (row_store h) (obj_rows obj))[?ch := (row_store h (obj_rows obj ! ?ch))[Column := ?t]]"
    unfolding h' using assms(2,3) ok(2) by (simp add: map_upd_nth)
  moreover have "map (row_store h) (obj_rows obj) ! ?ch = row_store h (obj_rows obj ! ?ch)"
    using assms(2) ok(2) by simp
  ultimately have "board (load h' obj') =
      (board (load h obj))[?ch := (board (load h obj) ! ?ch)[Column := ?t]]"
    by (simp add: load_def obj')
  moreover have "LastMove (load h' obj') = \<lparr>lm_x = Column, lm_y = ?ch, isInitialized = True\<rparr>"
    by (simp add: load_def obj')
  ultimately show ?thesis
    using mv out by (simp add: load_def)
qed

text \<open>
  A constructed object owns its buffers, holds the new board, and is separate from
  every object that owned its buffers before; those objects keep their values.
\<close>

lemma h_Board_new_owns:
  assumes "h_Board_new h = (obj, h')"
  shows "owns_rows h' obj" and "load h' obj = Board_new"
    and "next_free h' = next_free h + Height"
    and "owns_rows h other \<Longrightarrow> owns_rows h' other \<and> load h' other = load h other \<and>
         separate obj other \<and> separate other obj"
proof -
  have rows: "obj_rows obj = [next_free h..<next_free h + Height]"
    and lm: "obj_LastMove obj = \<lparr>lm_x = 0, lm_y = 0, isInitialized = False\<rparr>"
    and st: "row_store h' = fold fill_row [next_free h..<next_free h + Height] (row_store h)"
    and nf: "next_free h' = next_free h + Height"
    using assms by (auto simp: h_Board_new_def Let_def)
  show "owns_rows h' obj"
    by (simp add: owns_rows_def rows nf list_all_iff)
  show "next_free h' = next_free h + Height" by (rule nf)
  have "map (row_store h') (obj_rows obj) = map (\<lambda>a. replicate Width Empty) (obj_rows obj)"
    unfolding st rows by (rule map_cong) (simp_all add: fill_hit)
  then show "load h' obj = Board_new"
    by (simp add: load_def Board_new_def lm rows map_replicate_const)
  show "owns_rows h' other \<and> load h' other = load h other \<and>
         separate obj other \<and> separate other obj" if o: "owns_rows h other"
  proof -
    have below: "\<forall>a \<in> set (obj_rows other). a < next_free h"
      using o by (simp add: owns_rows_def list_all_iff)
    then have "\<forall>a \<in> set (obj_rows other). row_store h' a = row_store h a"
      unfolding st by (auto simp: fill_frame)
    then have "load h' other = load h other" by (rule load_frame)
    moreover have "owns_rows h' other"
      using o below by (auto simp: owns_rows_def nf list_all_iff)
    moreover have "separate obj other" "separate other obj"
      using below by (auto simp: separate_def rows list_all_iff)
    ultimately show ?thesis by simp
  qed
qed

subsection \<open>How a pass of the game loop ends\<close>

lemma MakeMove_fail_unchanged:
  "MakeMove Move Column b = (Inl e, b') \<Longrightarrow> b' = b"
  by (auto simp: MakeMove_def SetSpace_def split: sum.splits bool.splits if_splits)

lemma MakeMove_wf_any:
  "wf_board b \<Longrightarrow> MakeMove Move Column b = (res, b') \<Longrightarrow> wf_board b'"
  by (cases res) (auto dest: MakeMove_fail_unchanged MakeMove_wf)

lemma human_move_is_MakeMove:
  "human_move inputs b = Some b1 \<Longrightarrow> \<exists>Column. MakeMove MovePlayer1 Column b = (Inr (), b1)"
proof (induction inputs b rule: human_move.induct)
  case (1 b)
  then show ?case by simp
next
  case (2 inputs b)
  then show ?case by simp
next
  case (3 Column inputs b)
  obtain res b2 where mv: "MakeMove MovePlayer1 Column b = (res, b2)"
    by (cases "MakeMove MovePlayer1 Column b")
  show ?case
  proof (cases res)
    case (Inr u)
    then show ?thesis using 3 mv by auto
  next
    case (Inl e)
    then have "b2 = b" using mv MakeMove_fail_unchanged by blast
    then show ?thesis using 3 mv Inl by simp
  qed
qed

lemma win_horizontal_mono:
  assumes "\<forall>r < Height. \<forall>c < Width. g ! r ! c = p \<longrightarrow> g' ! r ! c = p"
    and "win_horizontal g p"
  shows "win_horizontal g' p"
proof -
  obtain r c where rc: "r < Height" "c + 3 < Width"
    and t: "g ! r ! c = p" "g ! r ! (c + 1) = p" "g ! r ! (c + 2) = p" "g ! r ! (c + 3) = p"
    using assms(2) unfolding win_horizontal_iff by blast
  have "g' ! r ! c = p" "g' ! r ! (c + 1) = p" "g' ! r ! (c + 2) = p" "g' ! r ! (c + 3) = p"
    using assms(1) rc t by simp_all
  then show ?thesis unfolding win_horizontal_iff using rc by blast
qed

lemma win_vertical_mono:
  assumes "\<forall>r < Height. \<forall>c < Width. g ! r ! c = p \<longrightarrow> g' ! r ! c = p"
    and "win_vertical g p"
  shows "win_vertical g' p"
proof -
  obtain r c where rc: "r + 3 < Height" "c < Width"
    and t: "g ! r ! c = p" "g ! (r + 1) ! c = p" "g ! (r + 2) ! c = p" "g ! (r + 3) ! c = p"
    using assms(2) unfolding win_vertical_iff by blast
  have "g' ! r ! c = p" "g' ! (r + 1) ! c = p" "g' ! (r + 2) ! c = p" "g' ! (r + 3) ! c = p"
    using assms(1) rc t by simp_all
  then show ?thesis unfolding win_vertical_iff using rc by blast
qed

lemma win_diagonal_down_mono:
  assumes "\<forall>r < Height. \<forall>c < Width. g ! r ! c = p \<longrightarrow> g' ! r ! c = p"
    and "win_diagonal_down g p"
  shows "win_diagonal_down g' p"
proof -
  obtain r c where rc: "r + 3 < Height" "c + 3 < Width"
    and t: "g ! r ! c = p" "g ! (r + 1) ! (c + 1) = p" "g ! (r + 2) ! (c + 2) = p"
      "g ! (r + 3) ! (c + 3) = p"
    using assms(2) unfolding win_diagonal_down_iff by blast
  have "g' ! r ! c = p" "g' ! (r + 1) ! (c + 1) = p" "g' ! (r + 2) ! (c + 2) = p"
    "g' ! (r + 3) ! (c + 3) = p"
    using assms(1) rc t by simp_all
  then show ?thesis unfolding win_diagonal_down_iff using rc by blast
qed

lemma win_diagonal_up_mono:
  assumes "\<forall>r < Height. \<forall>c < Width. g ! r ! c = p \<longrightarrow> g' ! r ! c = p"
    and "win_diagonal_up g p"
  shows "win_diagonal_up g' p"
proof -
  obtain r c where rc: "3 \<le> r" "r < Height" "c + 3 < Width"
    and t: "g ! r ! c = p" "g ! (r - 1) ! (c + 1) = p" "g ! (r - 2) ! (c + 2) = p"
      "g ! (r - 3) ! (c + 3) = p"
    using assms(2) unfolding win_diagonal_up_iff by blast
  have "g' ! r ! c = p" "g' ! (r - 1) ! (c + 1) = p" "g' ! (r - 2) ! (c + 2) = p"
    "g' ! (r - 3) ! (c + 3) = p"
    using assms(1) rc t by simp_all
  then show ?thesis unfolding win_diagonal_up_iff using rc by blast
qed

lemma CheckWin_mono:
  assumes "\<forall>r < Height. \<forall>c < Width. board b ! r ! c = p \<longrightarrow> board b' ! r ! c = p"
    and "CheckWin b p"
  shows "CheckWin b' p"
  using assms(2) win_horizontal_mono [OF assms(1)] win_vertical_mono [OF assms(1)]
    win_diagonal_down_mono [OF assms(1)] win_diagonal_up_mono [OF assms(1)]
  unfolding CheckWin_def by blast

text \<open>A move adds no four in a row of the other player's token.\<close>

lemma MakeMove_other_token:
  assumes "wf_board b" "MakeMove Move Column b = (Inr (), b')"
    and "p \<noteq> ConvertMoveToSpaceState Move" "CheckWin b' p"
  shows "CheckWin b p"
proof (rule CheckWin_mono [OF _ assms(4)], intro allI impI)
  fix r c
  assume rc: "r < Height" "c < Width" and cell: "board b' ! r ! c = p"
  let ?h = "scan_column (board b) Column Height"
  have "r \<noteq> ?h \<or> c \<noteq> Column"
    using MakeMove_cell_new [OF assms(1,2)] cell assms(3) by auto
  then have "board b' ! r ! c = board b ! r ! c"
    by (rule MakeMove_cell_other [OF assms(1,2) rc])
  then show "board b ! r ! c = p" using cell by simp
qed






lemma win_now_quiet:
  "wf_board b \<Longrightarrow> win_now b cols = Some (out, b') \<Longrightarrow>
   wf_board b' \<and> ((\<forall>how. out \<noteq> GameOver how) \<longrightarrow> b' = b)"
proof (induction cols)
  case Nil
  then show ?case by simp
next
  case (Cons i cols)
  then show ?case
    by (auto simp: Let_def split: sum.splits bool.splits prod.splits if_splits
        dest: MakeMove_fail_unchanged MakeMove_wf)
qed

lemma block_play_quiet:
  "wf_board b \<Longrightarrow> block_play b cols = (thrown, found, b') \<Longrightarrow>
   wf_board b' \<and> (thrown = None \<and> found \<longrightarrow> \<not> CheckWin b' Player2) \<and>
   (\<not> found \<longrightarrow> b' = b)"
proof (induction cols)
  case Nil
  then show ?case by simp
next
  case (Cons i cols)
  then show ?case
    by (auto simp: Let_def split: sum.splits bool.splits prod.splits if_splits
        dest: MakeMove_fail_unchanged MakeMove_wf)
qed

lemma block_play_found:
  "block_play b cols = (Some out, found, b') \<Longrightarrow> (\<forall>how. out \<noteq> GameOver how) \<Longrightarrow> \<not> found"
proof (induction cols)
  case Nil
  then show ?case by simp
next
  case (Cons i cols)
  then show ?case
    by (auto simp: Let_def split: sum.splits bool.splits prod.splits if_splits)
qed

lemma final_check_quiet:
  "final_check b = (out, b') \<Longrightarrow> b' = b \<and> ((\<forall>how. out \<noteq> GameOver how) \<longrightarrow> \<not> CheckWin b' Player2)"
  by (auto simp: final_check_def split: if_splits)

lemma player2_turn_quiet:
  assumes "wf_board b" "\<not> CheckWin b Player2" "player2_turn rnd b = Some (out, b')"
  shows "wf_board b' \<and> ((\<forall>how. out \<noteq> GameOver how) \<longrightarrow> \<not> CheckWin b' Player2)"
proof (cases "win_now b [0..<Width]")
  case (Some thrown)
  then have "win_now b [0..<Width] = Some (out, b')"
    using assms(3) by (simp add: player2_turn_def)
  then show ?thesis using win_now_quiet [OF assms(1)] assms(2) by blast
next
  case None
  obtain thrown found b1 where bp: "block_play b [0..<Width] = (thrown, found, b1)"
    by (cases "block_play b [0..<Width]")
  note q = block_play_quiet [OF assms(1) bp]
  show ?thesis
  proof (cases thrown)
    case (Some thr)
    then have eq: "out = thr" "b' = b1"
      using assms(3) None bp by (simp_all add: player2_turn_def)
    show ?thesis using q eq Some block_play_found [of b "[0..<Width]" thr found b1] bp assms(2)
      by auto
  next
    case no: None
    show ?thesis
    proof (cases found)
      case True
      then have "final_check b1 = (out, b')"
        using assms(3) None bp no by (simp add: player2_turn_def)
      then show ?thesis using final_check_quiet q by blast
    next
      case False
      then have b1: "b1 = b" using q by simp
      obtain probed where pr: "probe_column b (1 + rnd mod Width) = Some probed"
        using assms(3) None bp no False b1
        by (auto simp: player2_turn_def Let_def split: option.splits)
      show ?thesis
      proof (cases probed)
        case (Inl e)
        then show ?thesis
          using assms None bp no False b1 pr by (simp add: player2_turn_def Let_def)
      next
        case (Inr am)
        obtain res b2 where mv: "MakeMove MovePlayer2 (am - 1) b = (res, b2)"
          by (cases "MakeMove MovePlayer2 (am - 1) b")
        show ?thesis
        proof (cases res)
          case (Inl e)
          then have "b2 = b" using mv MakeMove_fail_unchanged by blast
          then show ?thesis
            using assms None bp no False b1 pr Inr mv Inl by (simp add: player2_turn_def Let_def)
        next
          case ok: (Inr u)
          then have "final_check b2 = (out, b')"
            using assms(3) None bp no False b1 pr Inr mv by (simp add: player2_turn_def Let_def)
          moreover have "wf_board b2" using MakeMove_wf_any [OF assms(1) mv] .
          ultimately show ?thesis using final_check_quiet by blast
        qed
      qed
    qed
  qed
qed

lemma after_move_quiet:
  assumes "wf_board b" "\<not> CheckWin b Player2" "after_move rnd b = Some (out, b')"
  shows "wf_board b' \<and> ((\<forall>how. out \<noteq> GameOver how) \<longrightarrow> \<not> CheckWin b' Player2)"
proof (cases "CheckWin b Player1")
  case True
  then show ?thesis using assms by (auto simp: after_move_def)
next
  case False
  show ?thesis
  proof (cases "draw_check b [0..<Width]")
    case (Inl e)
    then show ?thesis using assms False by (auto simp: after_move_def)
  next
    case (Inr isDraw)
    show ?thesis
    proof (cases isDraw)
      case True
      then show ?thesis using assms False Inr by (auto simp: after_move_def)
    next
      case no: False
      then have "player2_turn rnd b = Some (out, b')"
        using assms False Inr by (simp add: after_move_def)
      then show ?thesis using player2_turn_quiet [OF assms(1,2)] by blast
    qed
  qed
qed

subsection \<open>The game-over handler\<close>


text \<open>
  Every pass of the outer loop starts on a well-formed board without four in a row of
  Player2's token: the new board is one, and a pass that ends leaves one.
\<close>

lemma pass_start_condition:
  assumes "wf_board b" "\<not> CheckWin b Player2" "loop_pass inputs rnd b = Some (alert, b')"
  shows "wf_board b' \<and> \<not> CheckWin b' Player2"
proof -
  obtain out b2 where tb: "try_body inputs rnd b = Some (out, b2)"
    using assms(3) by (auto simp: loop_pass_def split: option.splits)
  obtain b1 where hm: "human_move inputs b = Some b1" and am: "after_move rnd b1 = Some (out, b2)"
    using tb by (auto simp: try_body_def split: option.splits)
  obtain Column where mv: "MakeMove MovePlayer1 Column b = (Inr (), b1)"
    using human_move_is_MakeMove [OF hm] by blast
  have wf1: "wf_board b1" using MakeMove_wf [OF assms(1) mv] .
  have n1: "\<not> CheckWin b1 Player2"
    using MakeMove_other_token [OF assms(1) mv, of Player2] assms(2) by auto
  note q = after_move_quiet [OF wf1 n1 am]
  show ?thesis
  proof (cases out)
    case Continue
    then show ?thesis using assms(3) tb q by (simp add: loop_pass_def)
  next
    case (Exception e)
    then show ?thesis using assms(3) tb q by (simp add: loop_pass_def)
  next
    case (GameOver how)
    then have b': "b' = assign b2 Board_new"
      using assms(3) tb by (auto simp: loop_pass_def game_over_handler_def Let_def)
    have "CheckWin b' Player2 = CheckWin Board_new Player2"
      unfolding b' by (rule CheckWin_board_cong) (simp add: assign_def)
    moreover have "wf_board b'"
      using wf_board_new by (simp add: b' wf_board_def assign_def)
    ultimately show ?thesis using CheckWin_new by simp
  qed
qed

text \<open>
  The position \<open>example_before_win\<close> arises in play from the new board: three passes
  of the outer loop with Player1's columns 3, 2, 4 and the values of \<open>rand()\<close> that
  send the fallback to column 6. In the fourth pass Player1 wins at column 5; the
  handler resets the grid and does not beep.
\<close>

lemma example_before_win_played:
  "loop_pass [Some 3] 6 Board_new = Some (False, snd (MakeMoves [(MovePlayer1, 3), (MovePlayer2, 6)] Board_new)) \<and>
   loop_pass [Some 2] 6 (snd (MakeMoves [(MovePlayer1, 3), (MovePlayer2, 6)] Board_new)) =
     Some (False, snd (MakeMoves [(MovePlayer1, 3), (MovePlayer2, 6), (MovePlayer1, 2), (MovePlayer2, 6)] Board_new)) \<and>
   loop_pass [Some 4] 0 (snd (MakeMoves [(MovePlayer1, 3), (MovePlayer2, 6), (MovePlayer1, 2), (MovePlayer2, 6)] Board_new)) =
     Some (False, example_before_win) \<and>
   loop_pass [Some 5] 0 example_before_win = Some (False, assign example_player1_won Board_new)"
  by code_simp

section \<open>Claims\<close>

text \<open>
  C1. The claim: \<open>GetColumnHeight\<close> returns the number of occupied cells of the
  column, so \<open>k\<close> after \<open>k\<close> moves into it. The code returns the largest index of an
  empty row instead: \<open>5\<close> for a column of the new board, which has no occupied cell,
  and \<open>4\<close> after the first move into it.
\<close>

theorem GetColumnHeight_not_piece_count:
  "occupied_cells Board_new 0 = 0 \<and>
   GetColumnHeight Board_new 0 = Inr 5 \<and>
   MakeMoves [(MovePlayer1, 0)] Board_new = (Inr (), example_first_move) \<and>
   occupied_cells example_first_move 0 = 1 \<and>
   GetColumnHeight example_first_move 0 = Inr 4"
  by code_simp

text \<open>
  C2. The claim: on every board reached from the new board the occupied cells of a
  column are a run that starts at row \<open>0\<close>, with no empty cell at a smaller row
  index than an occupied one. The first move into column 0 of the new board puts the
  token in row \<open>5\<close>, the row \<open>GetColumnHeight\<close> returned, and rows \<open>0\<close> to \<open>4\<close>
  stay empty, so the board reached does not satisfy the invariant.
\<close>

theorem first_move_lands_in_last_row:
  "MakeMove MovePlayer1 0 Board_new = (Inr (), example_first_move) \<and>
   reachable example_first_move \<and>
   GetSpace example_first_move 5 0 = Inr Player1 \<and>
   GetSpace example_first_move 4 0 = Inr Empty \<and>
   GetSpace example_first_move 0 0 = Inr Empty \<and>
   \<not> gravity_from_row0 example_first_move"
proof -
  have mv: "MakeMove MovePlayer1 0 Board_new = (Inr (), example_first_move)"
    by code_simp
  then have "reachable example_first_move"
    using reachable.start reachable.move by blast
  moreover have "GetSpace example_first_move 5 0 = Inr Player1"
    "GetSpace example_first_move 4 0 = Inr Empty" "GetSpace example_first_move 0 0 = Inr Empty"
    by code_simp+
  ultimately show ?thesis using mv gravity_from_row0_fails by simp
qed

theorem first_move_lands_in_last_row_witness:
  "(0::nat) < 5 \<and> 5 < Height \<and> (0::nat) < Width \<and>
   board example_first_move ! 5 ! 0 = Player1 \<and>
   board example_first_move ! 0 ! 0 = Empty \<and>
   \<not> gravity_from_row0 example_first_move"
proof -
  have "board example_first_move ! 5 ! 0 = Player1" "board example_first_move ! 0 ! 0 = Empty"
    by code_simp+
  then show ?thesis
    using first_move_lands_in_last_row by (simp add: Height_def Width_def)
qed

text \<open>
  C3. \<open>CheckWin\<close> returns true for every board with four of the player's tokens in
  a row horizontally, vertically or along either diagonal, and false for every board
  without such four; in particular it returns false when no row, column, diagonal or
  antidiagonal holds more than three of the player's tokens.
\<close>

theorem CheckWin_four_in_a_row:
  "(four_aligned b player \<longrightarrow> CheckWin b player) \<and>
   (\<not> four_aligned b player \<longrightarrow> \<not> CheckWin b player) \<and>
   (at_most_three_in_any_line b player \<longrightarrow> \<not> CheckWin b player)"
  using four_aligned_CheckWin CheckWin_four_aligned CheckWin_line by blast

theorem CheckWin_four_in_a_row_witness:
  "four_aligned example_player1_won Player1 \<and> CheckWin example_player1_won Player1 \<and>
   \<not> four_aligned example_before_win Player1 \<and>
   at_most_three_in_any_line example_before_win Player1 \<and>
   \<not> CheckWin example_before_win Player1"
proof -
  have a: "four_aligned example_player1_won Player1" by code_simp
  have n: "\<not> four_aligned example_before_win Player1" by code_simp
  have t: "at_most_three_in_any_line example_before_win Player1" by code_simp
  show ?thesis
    using CheckWin_four_in_a_row [of example_player1_won Player1]
      CheckWin_four_in_a_row [of example_before_win Player1] a n t
    by simp
qed

text \<open>
  C4. \<open>MakeMove\<close> into a full column (one for which \<open>CanMakeMove\<close> returns false)
  throws "Cannot make move" and leaves the whole object, grid and \<open>LastMove\<close>, as it
  was.
\<close>

theorem MakeMove_full_column_fails:
  "CanMakeMove b Column = Inr False \<Longrightarrow> MakeMove Move Column b = (Inl CannotMakeMove, b)"
  by (simp add: MakeMove_def)

theorem MakeMove_full_column_fails_witness:
  "CanMakeMove (snd (MakeMoves (replicate 6 (MovePlayer1, 0)) Board_new)) 0 = Inr False \<and>
   MakeMove MovePlayer2 0 (snd (MakeMoves (replicate 6 (MovePlayer1, 0)) Board_new)) =
     (Inl CannotMakeMove, snd (MakeMoves (replicate 6 (MovePlayer1, 0)) Board_new))"
proof -
  have full: "CanMakeMove (snd (MakeMoves (replicate 6 (MovePlayer1, 0)) Board_new)) 0 = Inr False"
    by code_simp
  show ?thesis
    using full MakeMove_full_column_fails [OF full, of MovePlayer2] by simp
qed

text \<open>
  C5. Win-now priority. If \<open>Column\<close> is the lowest column that can take a move and
  where Player2's token gives \<open>CheckWin\<close> for Player2, the automated player's turn
  puts its token in \<open>Column\<close> and the game is over with "Player 2 wins!", whatever
  the random value and the other columns are.
\<close>

theorem win_now_priority:
  assumes "Column < Width" "wins_at b MovePlayer2 Column"
    and "\<forall>c \<in> set [0..<Column]. \<not> wins_at b MovePlayer2 c"
  shows "player2_turn rnd b = Some (GameOver Player2Wins, snd (MakeMove MovePlayer2 Column b))"
proof -
  have "\<forall>c \<in> set [0..<Column]. c < Width \<and> \<not> wins_at b MovePlayer2 c"
    using assms(1,3) by simp
  then have "win_now b ([0..<Column] @ Column # [Suc Column..<Width]) =
      Some (GameOver Player2Wins, snd (MakeMove MovePlayer2 Column b))"
    using assms(2) by (rule win_now_first)
  then show ?thesis
    using columns_split [OF assms(1)] by (simp add: player2_turn_def)
qed

theorem win_now_priority_witness:
  "(3::nat) < Width \<and> wins_at example_win_now MovePlayer2 3 \<and>
   \<not> wins_at example_win_now MovePlayer2 0 \<and>
   \<not> wins_at example_win_now MovePlayer2 1 \<and>
   \<not> wins_at example_win_now MovePlayer2 2 \<and>
   wins_at example_win_now MovePlayer1 0 \<and>
   player2_turn 0 example_win_now =
     Some (GameOver Player2Wins, snd (MakeMove MovePlayer2 3 example_win_now)) \<and>
   GetSpace (snd (MakeMove MovePlayer2 3 example_win_now)) 2 3 = Inr Player2"
proof -
  have w: "(3::nat) < Width" by (simp add: Width_def)
  have hit: "wins_at example_win_now MovePlayer2 3" by code_simp
  have n0: "\<not> wins_at example_win_now MovePlayer2 0" by code_simp
  have n1: "\<not> wins_at example_win_now MovePlayer2 1" by code_simp
  have n2: "\<not> wins_at example_win_now MovePlayer2 2" by code_simp
  have p1: "wins_at example_win_now MovePlayer1 0" by code_simp
  have cell: "GetSpace (snd (MakeMove MovePlayer2 3 example_win_now)) 2 3 = Inr Player2"
    by code_simp
  have before: "\<forall>c \<in> set [0..<3]. \<not> wins_at example_win_now MovePlayer2 c"
    by code_simp
  show ?thesis
    using win_now_priority [OF w hit before, of 0] w hit n0 n1 n2 p1 cell by simp
qed

text \<open>
  C6. Block priority. If no column gives Player2 an immediate win and \<open>Column\<close> is the
  lowest column that can take a move and where Player1's token would give \<open>CheckWin\<close>
  for Player1, the automated player's turn puts its own token in \<open>Column\<close>, makes no
  other move, and play goes on.
\<close>

theorem block_priority:
  assumes "Column < Width"
    and "\<forall>c \<in> set [0..<Width]. \<not> wins_at b MovePlayer2 c"
    and "wins_at b MovePlayer1 Column"
    and "\<forall>c \<in> set [0..<Column]. \<not> wins_at b MovePlayer1 c"
  shows "player2_turn rnd b = Some (Continue, snd (MakeMove MovePlayer2 Column b))"
proof -
  have none: "win_now b [0..<Width] = None"
    using assms(2) by (intro win_now_none) simp
  have no2: "\<not> wins_at b MovePlayer2 Column"
    using assms(1,2) by simp
  have "\<forall>c \<in> set [0..<Column]. c < Width \<and> \<not> wins_at b MovePlayer1 c"
    using assms(1,4) by simp
  then have "block_play b ([0..<Column] @ Column # [Suc Column..<Width]) =
      (None, True, snd (MakeMove MovePlayer2 Column b))"
    using assms(3) no2 by (rule block_play_first)
  then have block: "block_play b [0..<Width] = (None, True, snd (MakeMove MovePlayer2 Column b))"
    using columns_split [OF assms(1)] by simp
  have can: "CanMakeMove b Column = Inr True"
    using assms(3) by (simp add: wins_at_def)
  have "\<not> CheckWin (snd (MakeMove MovePlayer2 Column b)) Player2"
    using no2 can by (simp add: wins_at_def)
  then show ?thesis
    using none block by (simp add: player2_turn_def final_check_def)
qed

theorem block_priority_witness:
  "(2::nat) < Width \<and> wins_at example_block MovePlayer1 2 \<and>
   \<not> wins_at example_block MovePlayer1 0 \<and>
   \<not> wins_at example_block MovePlayer1 1 \<and>
   player2_turn 5 example_block = Some (Continue, snd (MakeMove MovePlayer2 2 example_block)) \<and>
   GetSpace (snd (MakeMove MovePlayer2 2 example_block)) 2 2 = Inr Player2"
proof -
  have w: "(2::nat) < Width" by (simp add: Width_def)
  have hit: "wins_at example_block MovePlayer1 2" by code_simp
  have n0: "\<not> wins_at example_block MovePlayer1 0" by code_simp
  have n1: "\<not> wins_at example_block MovePlayer1 1" by code_simp
  have no2: "\<forall>c \<in> set [0..<Width]. \<not> wins_at example_block MovePlayer2 c" by code_simp
  have cell: "GetSpace (snd (MakeMove MovePlayer2 2 example_block)) 2 2 = Inr Player2"
    by code_simp
  have before: "\<forall>c \<in> set [0..<2]. \<not> wins_at example_block MovePlayer1 c"
    by code_simp
  show ?thesis
    using block_priority [OF w no2 hit before, of 5] w hit n0 n1 cell by simp
qed

text \<open>
  C7. Let \<open>dst\<close> and \<open>original\<close> be separate objects that own their buffers. After
  \<open>dst = original\<close> the grid of \<open>dst\<close> is the grid of \<open>original\<close>, and whatever
  sequence of \<open>MakeMove\<close> calls is then made on \<open>dst\<close>, \<open>GetColumnHeight\<close> and
  \<open>GetSpace\<close> on \<open>original\<close> return what they returned before: the assignment
  copies cells into the buffers of \<open>dst\<close> and \<open>MakeMove\<close> writes to the buffers
  of its own object only.
\<close>

theorem copy_independent_of_original:
  assumes "owns_rows h dst" "owns_rows h original" "separate dst original"
  shows "board (load (h_assign dst original h) dst) = board (load h original) \<and>
         GetColumnHeight (load (snd (h_MakeMoves ms dst (h_assign dst original h))) original) Column =
           GetColumnHeight (load h original) Column \<and>
         GetSpace (load (snd (h_MakeMoves ms dst (h_assign dst original h))) original) Row Column =
           GetSpace (load h original) Row Column"
proof -
  let ?h1 = "h_assign dst original h"
  obtain dst' h' where run: "h_MakeMoves ms dst ?h1 = (dst', h')"
    by (cases "h_MakeMoves ms dst ?h1")
  have len: "length (obj_rows dst) = Height"
    using assms(1) by (simp add: owns_rows_def)
  have apart: "\<forall>a \<in> set (obj_rows original). a \<notin> set (obj_rows dst)"
    using assms(3) by (auto simp: separate_def list_all_iff)
  have "\<forall>a \<in> set (obj_rows original). row_store h' a = row_store ?h1 a"
    using h_MakeMoves_frame [OF run len] apart by simp
  moreover have "\<forall>a \<in> set (obj_rows original). row_store ?h1 a = row_store h a"
    using apart by (simp add: h_assign_frame)
  ultimately have "\<forall>a \<in> set (obj_rows original). row_store h' a = row_store h a"
    by simp
  then have same: "load h' original = load h original"
    by (rule load_frame)
  have "board (load ?h1 dst) = board (load h original)"
    using h_assign_copies [OF assms] by (simp add: assign_def)
  then show ?thesis
    using same run by simp
qed

theorem copy_independent_of_original_witness:
  "owns_rows example_heap example_copy \<and> owns_rows example_heap example_original \<and>
   separate example_copy example_original \<and>
   board (load (h_assign example_copy example_original example_heap) example_copy) =
     board (load example_heap example_original) \<and>
   GetColumnHeight (load example_heap example_original) 3 = Inr 4 \<and>
   GetColumnHeight (load (snd (h_MakeMoves example_moves example_copy
       (h_assign example_copy example_original example_heap))) example_original) 3 = Inr 4 \<and>
   GetColumnHeight (load (snd (h_MakeMoves example_moves example_copy
       (h_assign example_copy example_original example_heap))) example_copy) 3 = Inr 2 \<and>
   GetSpace (load (snd (h_MakeMoves example_moves example_copy
       (h_assign example_copy example_original example_heap))) example_original) 4 3 = Inr Empty \<and>
   GetSpace (load (snd (h_MakeMoves example_moves example_copy
       (h_assign example_copy example_original example_heap))) example_copy) 4 3 = Inr Player2"
proof -
  have o1: "owns_rows example_heap example_copy" by code_simp
  have o2: "owns_rows example_heap example_original" by code_simp
  have sep: "separate example_copy example_original" by code_simp
  have h0: "GetColumnHeight (load example_heap example_original) 3 = Inr 4" by code_simp
  have s0: "GetSpace (load example_heap example_original) 4 3 = Inr Empty" by code_simp
  have h1: "GetColumnHeight (load (snd (h_MakeMoves example_moves example_copy
       (h_assign example_copy example_original example_heap))) example_copy) 3 = Inr 2"
    by code_simp
  have s1: "GetSpace (load (snd (h_MakeMoves example_moves example_copy
       (h_assign example_copy example_original example_heap))) example_copy) 4 3 = Inr Player2"
    by code_simp
  show ?thesis
    using copy_independent_of_original [OF o1 o2 sep, of example_moves 3 4]
      o1 o2 sep h0 s0 h1 s1
    by simp
qed

text \<open>
  C8. For a column in range, \<open>CanMakeMove\<close> returns true exactly when the column has
  an empty cell. This holds for every board, in particular for those reached from the
  new board.
\<close>

theorem CanMakeMove_iff_has_empty:
  "Column < Width \<Longrightarrow> CanMakeMove b Column = Inr (column_has_empty b Column)"
  using scan_column_lt_iff [of Height "board b" Column]
  by (auto simp: CanMakeMove_def GetColumnHeight_def column_has_empty_def GetSpace_def)

theorem CanMakeMove_iff_has_empty_witness:
  "(0::nat) < Width \<and>
   CanMakeMove (snd (MakeMoves (replicate 6 (MovePlayer1, 0)) Board_new)) 0 = Inr False \<and>
   \<not> column_has_empty (snd (MakeMoves (replicate 6 (MovePlayer1, 0)) Board_new)) 0 \<and>
   (1::nat) < Width \<and>
   CanMakeMove (snd (MakeMoves (replicate 6 (MovePlayer1, 0)) Board_new)) 1 = Inr True \<and>
   column_has_empty (snd (MakeMoves (replicate 6 (MovePlayer1, 0)) Board_new)) 1"
proof -
  let ?b = "snd (MakeMoves (replicate 6 (MovePlayer1, 0)) Board_new)"
  have w0: "(0::nat) < Width" and w1: "(1::nat) < Width" by (simp_all add: Width_def)
  have c0: "CanMakeMove ?b 0 = Inr False" by code_simp
  have c1: "CanMakeMove ?b 1 = Inr True" by code_simp
  show ?thesis
    using CanMakeMove_iff_has_empty [OF w0, of ?b] CanMakeMove_iff_has_empty [OF w1, of ?b] w0 w1 c0 c1
    by simp
qed




text \<open>
  C10. \<open>operator=\<close> replaces the grid of the destination and keeps its \<open>LastMove\<close>.
  So the reset in the game-over handler empties the grid and keeps the \<open>LastMove\<close> of
  the finished game, and the copy \<open>boardWin\<close> made for a trial move keeps the
  \<open>LastMove\<close> its constructor gave it, with \<open>isInitialized\<close> false.
\<close>

theorem operator_assign_keeps_LastMove:
  "LastMove (assign dst original) = LastMove dst \<and>
   board (assign dst original) = board original \<and>
   LastMove (snd (game_over_handler b)) = LastMove b \<and>
   board (snd (game_over_handler b)) = board Board_new \<and>
   LastMove (assign Board_new b) = \<lparr>lm_x = 0, lm_y = 0, isInitialized = False\<rparr>"
  by (simp add: assign_def game_over_handler_def Board_new_def Let_def)

end
